theory Spec2Isabelle
  imports Main "HOL-Library.AList" "HOL-Library.Sublist"
begin

section \<open>JavaScript values\<close>

text \<open>
  Schemas, form data and the definitions table are plain JavaScript values. An object is
  the list of its own enumerable properties in the order the engine enumerates them, a
  property written to an object replaces the value in place or is appended
  (\<open>AList.update\<close>), and \<open>delete\<close> removes it (\<open>AList.delete\<close>). Numbers are integers:
  the keywords read here never hold fractions or \<open>NaN\<close>. A string is the list of its
  UTF-16 code units, each a \<open>char\<close>: the model has the strings whose code units are
  below 256.
\<close>

datatype json =
    JUndefined
  | JNull
  | JBool bool
  | JNum int
  | JStr string
  | JArr "json list"
  | JObj "(string \<times> json) list"

datatype error = TypeError | SchemaReferenceError string

text \<open>The conversion \<open>ToBoolean\<close>, as applied by \<open>if (x)\<close>, \<open>!x\<close> and \<open>||\<close>.\<close>

fun truthy :: "json \<Rightarrow> bool" where
  "truthy JUndefined = False"
| "truthy JNull = False"
| "truthy (JBool b) = b"
| "truthy (JNum n) = (n \<noteq> 0)"
| "truthy (JStr s) = (s \<noteq> [])"
| "truthy (JArr xs) = True"
| "truthy (JObj kvs) = True"

text \<open>The decimal numeral of an array index, the property key of an array element.\<close>

definition digit_char :: "nat \<Rightarrow> char" where
  "digit_char d = char_of (of_char CHR ''0'' + d)"

fun string_of_nat :: "nat \<Rightarrow> string" where
  "string_of_nat n =
     (let last_digit = [digit_char (n mod 10)]
      in if n < 10 then last_digit else string_of_nat (n div 10) @ last_digit)"

declare string_of_nat.simps [simp del]

definition index_keys :: "nat \<Rightarrow> string list" where
  "index_keys n = map string_of_nat [0..<n]"

text \<open>
  The own enumerable properties of a value: those of an object, the elements of an array
  and the characters of a string under their indices, none for the other primitives.
  This is what object spread copies and what \<open>Object.keys\<close> and \<open>for ... in\<close> enumerate.
\<close>

fun entries :: "json \<Rightarrow> (string \<times> json) list" where
  "entries (JObj kvs) = kvs"
| "entries (JArr xs) = zip (index_keys (length xs)) xs"
| "entries (JStr s) = zip (index_keys (length s)) (map (\<lambda>c. JStr [c]) s)"
| "entries _ = []"

definition enumerable_keys :: "json \<Rightarrow> string list" where
  "enumerable_keys v = map fst (entries v)"

text \<open>\<open>Object.keys(v)\<close> throws on \<open>undefined\<close> and \<open>null\<close>.\<close>

fun Object_keys :: "json \<Rightarrow> error + string list" where
  "Object_keys JUndefined = Inl TypeError"
| "Object_keys JNull = Inl TypeError"
| "Object_keys v = Inr (enumerable_keys v)"

text \<open>
  The property read \<open>v.name\<close> for the keyword names the component reads (\<open>properties\<close>,
  \<open>anyOf\<close>, \<open>allOf\<close>, \<open>type\<close>, \<open>$ref\<close>): none of them is an index, \<open>length\<close> or
  an inherited member, so only an object can hold one. Reading a property of
  \<open>undefined\<close> or \<open>null\<close> throws.
\<close>

fun js_get :: "json \<Rightarrow> string \<Rightarrow> error + json" where
  "js_get JUndefined name = Inl TypeError"
| "js_get JNull name = Inl TypeError"
| "js_get (JObj kvs) name = Inr (case map_of kvs name of None \<Rightarrow> JUndefined | Some v \<Rightarrow> v)"
| "js_get v name = Inr JUndefined"

text \<open>\<open>Object.assign(target, source)\<close> on the property list of the target.\<close>

definition assign :: "(string \<times> json) list \<Rightarrow> json \<Rightarrow> (string \<times> json) list" where
  "assign target source = fold (\<lambda>(k, v). AList.update k v) (entries source) target"

section \<open>The component\<close>

record props =
  props_formData :: json
  props_options :: "json list"
  props_registry_definitions :: json

record state =
  selectedOption :: nat

text \<open>
  A component instance: its props, and its state once the constructor has assigned it.
\<close>

record component =
  props :: props
  state :: "state option"

subsection \<open>getMatchingOption\<close>

text \<open>The object \<open>{ anyOf: keys.map(key => ({ required: [key] })) }\<close>.\<close>

definition requiresAnyOf :: "string list \<Rightarrow> json" where
  "requiresAnyOf keys =
     JObj [(''anyOf'', JArr (map (\<lambda>key. JObj [(''required'', JArr [JStr key])]) keys))]"

text \<open>
  The augmented schema of an option whose \<open>properties\<close> is truthy. With a truthy
  \<open>anyOf\<close> the option is cloned (the clone has the entries of the option), its \<open>allOf\<close> is replaced by a new array (empty, or
  the \<open>slice()\<close> of the old one: only an array has both \<open>slice\<close> and \<open>push\<close>) and
  \<open>requiresAnyOf\<close> is pushed onto it. Otherwise the option and \<open>requiresAnyOf\<close> are
  assigned over \<open>{ definitions }\<close>. The \<open>required\<close> property is deleted from the result.
\<close>

definition augmentedSchema :: "json \<Rightarrow> json \<Rightarrow> json \<Rightarrow> error + json" where
  "augmentedSchema definitions option properties =
     (case Object_keys properties of
        Inl e \<Rightarrow> Inl e
      | Inr keys \<Rightarrow>
          (case js_get option ''anyOf'' of
             Inl e \<Rightarrow> Inl e
           | Inr anyOf \<Rightarrow>
               if truthy anyOf then
                 (let shallowClone = entries option in
                  case js_get (JObj shallowClone) ''allOf'' of
                    Inl e \<Rightarrow> Inl e
                  | Inr allOf \<Rightarrow>
                      if \<not> truthy allOf then
                        Inr (JObj (AList.delete ''required''
                          (AList.update ''allOf'' (JArr ([] @ [requiresAnyOf keys])) shallowClone)))
                      else
                        (case allOf of
                           JArr xs \<Rightarrow>
                             Inr (JObj (AList.delete ''required''
                               (AList.update ''allOf'' (JArr (xs @ [requiresAnyOf keys])) shallowClone)))
                         | _ \<Rightarrow> Inl TypeError))
               else
                 Inr (JObj (AList.delete ''required''
                   (assign (assign [(''definitions'', definitions)] option) (requiresAnyOf keys))))))"

text \<open>
  The schema that the loop hands to \<open>isValid\<close> for one option: the augmented schema when
  \<open>option.properties\<close> is truthy, \<open>{ ...option, definitions }\<close> otherwise.
\<close>

definition matchSchema :: "json \<Rightarrow> json \<Rightarrow> error + json" where
  "matchSchema definitions option =
     (case js_get option ''properties'' of
        Inl e \<Rightarrow> Inl e
      | Inr properties \<Rightarrow>
          if truthy properties then augmentedSchema definitions option properties
          else Inr (JObj (AList.update ''definitions'' definitions (entries option))))"

text \<open>
  The loop \<open>for (let i = 0; i < options.length; i++)\<close> from index \<open>i\<close> over the options
  that remain; \<open>isValid\<close> is the validator of the repository, a parameter here. After
  the loop the method returns 0.
\<close>

fun matchFrom :: "(json \<Rightarrow> json \<Rightarrow> bool) \<Rightarrow> json \<Rightarrow> json \<Rightarrow> nat \<Rightarrow> json list \<Rightarrow> error + nat" where
  "matchFrom isValid formData definitions i [] = Inr 0"
| "matchFrom isValid formData definitions i (option # rest) =
     (case matchSchema definitions option of
        Inl e \<Rightarrow> Inl e
      | Inr schema \<Rightarrow>
          if isValid schema formData then Inr i
          else matchFrom isValid formData definitions (i + 1) rest)"

text \<open>
  The method takes the instance as its receiver, and reads neither its props nor its
  state.
\<close>

definition getMatchingOption ::
  "(json \<Rightarrow> json \<Rightarrow> bool) \<Rightarrow> component \<Rightarrow> json \<Rightarrow> json list \<Rightarrow> json \<Rightarrow> error + nat" where
  "getMatchingOption isValid this formData options definitions =
     matchFrom isValid formData definitions 0 options"

subsection \<open>The constructor and componentWillReceiveProps\<close>

text \<open>
  The constructor calls \<open>getMatchingOption\<close> on the instance that holds the props and
  no state yet, and assigns the state.
\<close>

definition constructor :: "(json \<Rightarrow> json \<Rightarrow> bool) \<Rightarrow> props \<Rightarrow> error + component" where
  "constructor isValid p =
     (let this = \<lparr>props = p, state = None\<rparr> in
      case getMatchingOption isValid this
             (props_formData p) (props_options p) (props_registry_definitions p) of
        Inl e \<Rightarrow> Inl e
      | Inr i \<Rightarrow> Inr (this\<lparr>state := Some \<lparr>selectedOption = i\<rparr>\<rparr>))"

text \<open>
  \<open>componentWillReceiveProps(nextProps)\<close>. The test \<open>matchingOption === null\<close> compares
  a number with \<open>null\<close>. React assigns \<open>nextProps\<close> to the instance when the hook has
  returned; the component returned here holds them.
\<close>

definition componentWillReceiveProps ::
  "(json \<Rightarrow> json \<Rightarrow> bool) \<Rightarrow> component \<Rightarrow> props \<Rightarrow> error + component" where
  "componentWillReceiveProps isValid this nextProps =
     (case getMatchingOption isValid this
             (props_formData nextProps) (props_options nextProps)
             (props_registry_definitions nextProps) of
        Inl e \<Rightarrow> Inl e
      | Inr matchingOption \<Rightarrow>
          (case state this of
             None \<Rightarrow> Inl TypeError
           | Some st \<Rightarrow>
               if JNum (int matchingOption) = JNull \<or> matchingOption = selectedOption st
               then Inr (this\<lparr>props := nextProps\<rparr>)
               else Inr (this\<lparr>props := nextProps,
                              state := Some (st\<lparr>selectedOption := matchingOption\<rparr>)\<rparr>)))"

subsection \<open>onOptionChange\<close>

text \<open>
  \<open>parseInt(option, 10)\<close> on the string of the selected value: leading white space, a
  sign, then the longest run of decimal digits; \<open>None\<close> is \<open>NaN\<close>. The white space of
  JavaScript among the code units of a model string: tab, line feed, vertical tab, form
  feed, carriage return, space and the no-break space U+00A0 (the other white space code
  points are above U+00FF).
\<close>

definition is_space :: "char \<Rightarrow> bool" where
  "is_space c = ((of_char c :: nat) \<in> {9, 10, 11, 12, 13, 32, 160})"

definition is_digit :: "char \<Rightarrow> bool" where
  "is_digit c = (48 \<le> (of_char c :: nat) \<and> (of_char c :: nat) \<le> 57)"

definition digits_value :: "string \<Rightarrow> nat" where
  "digits_value ds = foldl (\<lambda>a c. 10 * a + (of_char c - 48)) 0 ds"

definition parseInt10 :: "string \<Rightarrow> int option" where
  "parseInt10 s =
     (let s1 = dropWhile is_space s;
          neg = (case s1 of [] \<Rightarrow> False | c # r \<Rightarrow> c = CHR ''-'');
          s2 = (case s1 of [] \<Rightarrow> [] | c # r \<Rightarrow> if c = CHR ''-'' \<or> c = CHR ''+'' then r else s1);
          ds = takeWhile is_digit s2
      in if ds = [] then None
         else Some (if neg then - int (digits_value ds) else int (digits_value ds)))"

text \<open>\<open>options[selectedOption]\<close>: \<open>undefined\<close> for \<open>NaN\<close> and outside the array.\<close>

definition element_at :: "json list \<Rightarrow> int option \<Rightarrow> json" where
  "element_at xs idx =
     (case idx of
        None \<Rightarrow> JUndefined
      | Some i \<Rightarrow> if 0 \<le> i \<and> nat i < length xs then xs ! nat i else JUndefined)"

text \<open>
  \<open>"$ref" in v\<close>: throws unless \<open>v\<close> is an object; an array has no such member.
\<close>

fun has_ref :: "json \<Rightarrow> error + bool" where
  "has_ref (JObj kvs) = Inr (''$ref'' \<in> fst ` set kvs)"
| "has_ref (JArr xs) = Inr False"
| "has_ref v = Inl TypeError"

text \<open>
  Modelled from the spec: \<open>findSchemaDefinition\<close> of the repository's utilities, which
  is not among the sources. The spec: the reference is looked up by exact key in the
  definitions table (\<open>#/definitions/Foo\<close> names the entry \<open>Foo\<close>), and an absent entry
  fails with a reference error.
\<close>

fun strip_prefix :: "string \<Rightarrow> string \<Rightarrow> string option" where
  "strip_prefix [] s = Some s"
| "strip_prefix (p # ps) [] = None"
| "strip_prefix (p # ps) (c # cs) = (if p = c then strip_prefix ps cs else None)"

definition findSchemaDefinition :: "json \<Rightarrow> json \<Rightarrow> error + json" where
  "findSchemaDefinition ref definitions =
     (case ref of
        JStr r \<Rightarrow>
          (case strip_prefix ''#/definitions/'' r of
             None \<Rightarrow> Inl (SchemaReferenceError r)
           | Some name \<Rightarrow>
               (case definitions of
                  JObj kvs \<Rightarrow>
                    (case map_of kvs name of
                       None \<Rightarrow> Inl (SchemaReferenceError r)
                     | Some schema \<Rightarrow> Inr schema)
                | _ \<Rightarrow> Inl (SchemaReferenceError r)))
      | _ \<Rightarrow> Inl (SchemaReferenceError []))"

text \<open>
  Modelled from the spec: \<open>guessType\<close> of the repository's utilities, which is not among
  the sources. The spec: the runtime shape of the data, \<open>object\<close> for an object/mapping.
\<close>

fun guessType :: "json \<Rightarrow> string" where
  "guessType (JArr xs) = ''array''"
| "guessType (JStr s) = ''string''"
| "guessType JUndefined = ''null''"
| "guessType JNull = ''null''"
| "guessType (JBool b) = ''boolean''"
| "guessType (JNum n) = ''number''"
| "guessType (JObj kvs) = ''object''"

text \<open>
  \<open>let newOption = options[selectedOption]; if ("$ref" in newOption) newOption =
  findSchemaDefinition(newOption.$ref, registry.definitions)\<close>.
\<close>

definition resolveOption :: "json \<Rightarrow> json \<Rightarrow> error + json" where
  "resolveOption definitions newOption =
     (case has_ref newOption of
        Inl e \<Rightarrow> Inl e
      | Inr False \<Rightarrow> Inr newOption
      | Inr True \<Rightarrow>
          (case js_get newOption ''$ref'' of
             Inl e \<Rightarrow> Inl e
           | Inr ref \<Rightarrow> findSchemaDefinition ref definitions))"

text \<open>
  The test \<open>guessType(formData) === "object" && (newOption.type === "object" ||
  newOption.properties)\<close>; the right operand is evaluated only when the left one holds.
\<close>

definition objectSwitch :: "json \<Rightarrow> json \<Rightarrow> error + bool" where
  "objectSwitch formData newOption =
     (if guessType formData = ''object'' then
        (case js_get newOption ''type'' of
           Inl e \<Rightarrow> Inl e
         | Inr t \<Rightarrow>
             if t = JStr ''object'' then Inr True
             else (case js_get newOption ''properties'' of
                     Inl e \<Rightarrow> Inl e
                   | Inr properties \<Rightarrow> Inr (truthy properties)))
      else Inr False)"

text \<open>
  \<open>if (newFormData.hasOwnProperty(key)) delete newFormData[key]\<close>. The method is the
  inherited one unless the object has a property of that name, which is then called and
  is no function. Deleting an element of an array leaves a hole, which reads as
  \<open>undefined\<close>; the length of an array and the members of a string cannot be deleted
  (a \<open>TypeError\<close> in module code, which is strict).
\<close>

definition index_of_key :: "string \<Rightarrow> nat \<Rightarrow> nat" where
  "index_of_key k n = length (takeWhile (\<lambda>k'. k' \<noteq> k) (index_keys n))"

fun discardKey :: "json \<Rightarrow> string \<Rightarrow> error + json" where
  "discardKey JUndefined k = Inl TypeError"
| "discardKey JNull k = Inl TypeError"
| "discardKey (JObj kvs) k =
     (if ''hasOwnProperty'' \<in> fst ` set kvs then Inl TypeError
      else if k \<in> fst ` set kvs then Inr (JObj (AList.delete k kvs))
      else Inr (JObj kvs))"
| "discardKey (JArr xs) k =
     (if k = ''length'' then Inl TypeError
      else if k \<in> set (index_keys (length xs))
        then Inr (JArr (xs[index_of_key k (length xs) := JUndefined]))
      else Inr (JArr xs))"
| "discardKey (JStr s) k =
     (if k = ''length'' \<or> k \<in> set (index_keys (length s)) then Inl TypeError
      else Inr (JStr s))"
| "discardKey v k = Inr v"

text \<open>\<open>for (const key in option.properties)\<close> over the keys that remain.\<close>

fun discardKeys :: "json \<Rightarrow> string list \<Rightarrow> error + json" where
  "discardKeys newFormData [] = Inr newFormData"
| "discardKeys newFormData (k # ks) =
     (case discardKey newFormData k of
        Inl e \<Rightarrow> Inl e
      | Inr d \<Rightarrow> discardKeys d ks)"

text \<open>\<open>for (const option of optionsToDiscard)\<close> over the options that remain.\<close>

fun discardOptions :: "json \<Rightarrow> json list \<Rightarrow> error + json" where
  "discardOptions newFormData [] = Inr newFormData"
| "discardOptions newFormData (option # rest) =
     (case js_get option ''properties'' of
        Inl e \<Rightarrow> Inl e
      | Inr properties \<Rightarrow>
          if truthy properties then
            (case discardKeys newFormData (enumerable_keys properties) of
               Inl e \<Rightarrow> Inl e
             | Inr d \<Rightarrow> discardOptions d rest)
          else discardOptions newFormData rest)"

text \<open>
  \<open>onOptionChange(option)\<close>; \<open>computeDefaults\<close> is the default computer of the
  repository, a parameter here. The result is the value passed to \<open>onChange\<close> and the
  instance after \<open>setState\<close>; a throw leaves the instance as it was and emits nothing.
  \<open>splice\<close> is reached with an index inside the array only.
\<close>

definition onOptionChange ::
  "(json \<Rightarrow> json \<Rightarrow> json \<Rightarrow> error + json) \<Rightarrow> component \<Rightarrow> string \<Rightarrow> error + (json \<times> component)" where
  "onOptionChange computeDefaults this option =
     (let selectedOption = parseInt10 option;
          formData = props_formData (props this);
          options = props_options (props this);
          definitions = props_registry_definitions (props this);
          this' = this\<lparr>state := Some \<lparr>selectedOption = nat (the selectedOption)\<rparr>\<rparr>
      in case resolveOption definitions (element_at options selectedOption) of
           Inl e \<Rightarrow> Inl e
         | Inr newOption \<Rightarrow>
             (case objectSwitch formData newOption of
                Inl e \<Rightarrow> Inl e
              | Inr False \<Rightarrow> Inr (JUndefined, this')
              | Inr True \<Rightarrow>
                  (case computeDefaults newOption (JObj []) definitions of
                     Inl e \<Rightarrow> Inl e
                   | Inr newFormData \<Rightarrow>
                       (let optionsToDiscard =
                              take (nat (the selectedOption)) options
                              @ drop (Suc (nat (the selectedOption))) options
                        in case discardOptions newFormData optionsToDiscard of
                             Inl e \<Rightarrow> Inl e
                           | Inr emitted \<Rightarrow> Inr (emitted, this')))))"

section \<open>The validator on a fragment of JSON Schema\<close>

text \<open>
  Modelled from the spec: \<open>isValid\<close> of the repository's validation module, which is
  not among the sources. The spec: a pure predicate of schema and data with the standard
  JSON Schema semantics (draft 6), false when the validator throws. The model covers the
  boolean schemas and the keywords \<open>type\<close>, \<open>required\<close>, \<open>properties\<close>, \<open>anyOf\<close>,
  \<open>allOf\<close> and \<open>$ref\<close>, and decides schemas written with these keywords. It
  instantiates the validator in the examples; the general theorems hold for every
  validator.
\<close>

text \<open>
  A keyword of a schema object, and a property of a data object: a property whose value
  is \<open>undefined\<close> counts as absent.
\<close>

definition keyword :: "(string \<times> json) list \<Rightarrow> string \<Rightarrow> json option" where
  "keyword kvs name = (case map_of kvs name of Some JUndefined \<Rightarrow> None | r \<Rightarrow> r)"

text \<open>
  The keyword \<open>type\<close>: a type name, or an array of type names of which one matches.
  \<open>undefined\<close> is of no type.
\<close>

definition typeMatches :: "json \<Rightarrow> json \<Rightarrow> bool" where
  "typeMatches name d =
     (case d of
        JUndefined \<Rightarrow> False
      | JNull \<Rightarrow> name = JStr ''null''
      | JBool b \<Rightarrow> name = JStr ''boolean''
      | JNum n \<Rightarrow> name = JStr ''number'' \<or> name = JStr ''integer''
      | JStr s \<Rightarrow> name = JStr ''string''
      | JArr xs \<Rightarrow> name = JStr ''array''
      | JObj kvs \<Rightarrow> name = JStr ''object'')"

definition typeOk :: "json option \<Rightarrow> json \<Rightarrow> bool" where
  "typeOk t d =
     (case t of
        None \<Rightarrow> True
      | Some (JStr name) \<Rightarrow> typeMatches (JStr name) d
      | Some (JArr names) \<Rightarrow> list_ex (\<lambda>name. typeMatches name d) names
      | Some _ \<Rightarrow> False)"

text \<open>
  The keyword \<open>required\<close>: an array of property names, which constrains objects only.
\<close>

definition present :: "(string \<times> json) list \<Rightarrow> json \<Rightarrow> bool" where
  "present dkvs name =
     (case name of
        JStr k \<Rightarrow> keyword dkvs k \<noteq> None
      | _ \<Rightarrow> False)"

definition requiredOk :: "json option \<Rightarrow> json \<Rightarrow> bool" where
  "requiredOk r d =
     (case r of
        None \<Rightarrow> True
      | Some (JArr names) \<Rightarrow>
          (case d of
             JObj dkvs \<Rightarrow> list_all (present dkvs) names
           | _ \<Rightarrow> list_all (\<lambda>name. case name of JStr k \<Rightarrow> True | _ \<Rightarrow> False) names)
      | Some _ \<Rightarrow> False)"

text \<open>
  The keyword \<open>$ref\<close>: a JSON pointer into the root schema, \<open>#\<close> or \<open>#/\<close>
  followed by reference tokens separated by \<open>/\<close>, in which \<open>~1\<close> stands for \<open>/\<close>
  and \<open>~0\<close> for \<open>~\<close>. A reference that does not resolve makes the validator of
  the repository throw, and \<open>isValid\<close> answers false.
\<close>

fun split_at :: "char \<Rightarrow> string \<Rightarrow> string list" where
  "split_at c [] = [[]]"
| "split_at c (x # xs) =
     (let rest = split_at c xs
      in if x = c then [] # rest else (x # hd rest) # tl rest)"

fun unescape :: "string \<Rightarrow> string" where
  "unescape (a # b # s) =
     (if a = CHR ''~'' \<and> b = CHR ''1'' then CHR ''/'' # unescape s
      else if a = CHR ''~'' \<and> b = CHR ''0'' then CHR ''~'' # unescape s
      else a # unescape (b # s))"
| "unescape s = s"

fun walk :: "json \<Rightarrow> string list \<Rightarrow> json option" where
  "walk v [] = Some v"
| "walk (JObj kvs) (t # ts) = (case map_of kvs t of None \<Rightarrow> None | Some v \<Rightarrow> walk v ts)"
| "walk (JArr xs) (t # ts) =
     (if t \<in> set (index_keys (length xs)) then walk (xs ! index_of_key t (length xs)) ts
      else None)"
| "walk v (t # ts) = None"

definition resolvePointer :: "json \<Rightarrow> string \<Rightarrow> json option" where
  "resolvePointer root r =
     (if r = ''#'' then Some root
      else case strip_prefix ''#/'' r of
             None \<Rightarrow> None
           | Some path \<Rightarrow> walk root (map unescape (split_at CHR ''/'' path)))"

text \<open>
  The fragment: a boolean schema, or an object. In an object with \<open>$ref\<close> the reference
  is followed and the other keywords are ignored; otherwise \<open>type\<close>, \<open>required\<close>,
  \<open>properties\<close>, \<open>anyOf\<close> and \<open>allOf\<close> must all hold. A keyword whose value has not
  the shape the keyword requires fails the schema. \<open>hops\<close> bounds the references
  followed: it decreases at each one, and the schema fails when it is used up.
\<close>

lemma size_keyword:
  "keyword kvs k = Some v \<Longrightarrow> size v < Suc (size_list (size_prod (\<lambda>_. 0) size) kvs)"
  unfolding keyword_def
  by (induction kvs) (auto split: if_splits option.splits json.splits)

lemma size_entry:
  "(k, v) \<in> set kvs \<Longrightarrow> size v \<le> size_list (size_prod (\<lambda>_. 0) size) kvs"
  by (induction kvs) auto

lemma size_element: "x \<in> set xs \<Longrightarrow> size x \<le> size_list size xs"
  by (induction xs) auto

function (sequential) validatesIn :: "json \<Rightarrow> nat \<Rightarrow> json \<Rightarrow> json \<Rightarrow> bool" where
  "validatesIn root hops (JBool b) d = b"
| "validatesIn root hops (JObj kvs) d =
    (case keyword kvs ''$ref'' of
       Some (JStr r) \<Rightarrow>
         (case resolvePointer root r of
            None \<Rightarrow> False
          | Some target \<Rightarrow> if hops = 0 then False else validatesIn root (hops - 1) target d)
     | Some other \<Rightarrow> False
     | None \<Rightarrow>
         typeOk (keyword kvs ''type'') d \<and>
         requiredOk (keyword kvs ''required'') d \<and>
         (case keyword kvs ''properties'' of
            None \<Rightarrow> True
          | Some (JObj ps) \<Rightarrow>
              (case d of
                 JObj dkvs \<Rightarrow>
                   list_all (\<lambda>(k, s). case keyword dkvs k of
                                        None \<Rightarrow> True
                                      | Some v \<Rightarrow> validatesIn root hops s v) ps
               | _ \<Rightarrow> True)
          | Some other \<Rightarrow> False) \<and>
         (case keyword kvs ''anyOf'' of
            None \<Rightarrow> True
          | Some (JArr ss) \<Rightarrow> list_ex (\<lambda>s. validatesIn root hops s d) ss
          | Some other \<Rightarrow> False) \<and>
         (case keyword kvs ''allOf'' of
            None \<Rightarrow> True
          | Some (JArr ss) \<Rightarrow> ss \<noteq> [] \<and> list_all (\<lambda>s. validatesIn root hops s d) ss
          | Some other \<Rightarrow> False))"
| "validatesIn root hops schema d = False"
  by pat_completeness auto
termination
  apply (relation "measures [\<lambda>(root, hops, s, d). hops, \<lambda>(root, hops, s, d). size s]")
     apply simp
    apply simp
   apply (auto dest!: size_keyword dest: size_entry size_element simp: less_Suc_eq_le)
  done

text \<open>
  The validator, on a schema that is its own root. A chain of references that visits no
  reference twice at one datum has at most \<open>size schema\<close> members, and the data is
  descended into at most \<open>size d\<close> times, so the bound is reached only by a reference
  cycle that consumes no data, on which the validator of the repository does not return.
\<close>

definition validates :: "json \<Rightarrow> json \<Rightarrow> bool" where
  "validates schema d = validatesIn schema (size schema * (size d + 1)) schema d"

section \<open>The default computer on a fragment\<close>

text \<open>
  Modelled from the spec: \<open>computeDefaults\<close> of the repository's utilities, which is not
  among the sources. The spec: it fills in the declared defaults of a schema. The model
  covers an object schema whose property schemas declare their defaults themselves: the
  result holds each property that declares a default, and the base is returned for any
  other schema. It instantiates the default computer in the examples; the general
  theorems hold for every default computer.
\<close>

definition declaredDefaults :: "json \<Rightarrow> json \<Rightarrow> json \<Rightarrow> error + json" where
  "declaredDefaults schema base definitions =
     (case js_get schema ''properties'' of
        Inr (JObj ps) \<Rightarrow>
          Inr (JObj (concat (map (\<lambda>(k, sub). case js_get sub ''default'' of
                                                Inl e \<Rightarrow> []
                                              | Inr JUndefined \<Rightarrow> []
                                              | Inr d \<Rightarrow> [(k, d)]) ps)))
      | _ \<Rightarrow> Inr base)"

section \<open>The notions of the specification\<close>

text \<open>
  A branch, after augmentation, validates the form data: the schema the loop builds for
  the option exists and the validator accepts the data against it.
\<close>

definition optionValid :: "(json \<Rightarrow> json \<Rightarrow> bool) \<Rightarrow> json \<Rightarrow> json \<Rightarrow> json \<Rightarrow> bool" where
  "optionValid isValid definitions formData option =
     (case matchSchema definitions option of
        Inl e \<Rightarrow> False
      | Inr schema \<Rightarrow> isValid schema formData)"

text \<open>
  The options on which the loop body does not throw: not \<open>undefined\<close> or \<open>null\<close>, and
  with truthy \<open>properties\<close> and \<open>anyOf\<close> the keyword \<open>allOf\<close> is falsy or an array.
\<close>

definition wellFormedOption :: "json \<Rightarrow> bool" where
  "wellFormedOption option =
     (case option of
        JUndefined \<Rightarrow> False
      | JNull \<Rightarrow> False
      | JObj kvs \<Rightarrow>
          (case (map_of kvs ''properties'', map_of kvs ''anyOf'', map_of kvs ''allOf'') of
             (Some p, Some a, Some l) \<Rightarrow>
               \<not> (truthy p \<and> truthy a \<and> truthy l) \<or> (case l of JArr xs \<Rightarrow> True | _ \<Rightarrow> False)
           | _ \<Rightarrow> True)
      | _ \<Rightarrow> True)"

text \<open>The property names an option declares: the keys of its truthy \<open>properties\<close>.\<close>

definition declaredKeys :: "json \<Rightarrow> string list" where
  "declaredKeys option =
     (case js_get option ''properties'' of
        Inl e \<Rightarrow> []
      | Inr properties \<Rightarrow> if truthy properties then enumerable_keys properties else [])"

text \<open>An object-typed branch: it declares \<open>type: "object"\<close> or has \<open>properties\<close>.\<close>

definition objectTyped :: "json \<Rightarrow> bool" where
  "objectTyped schema =
     (case schema of
        JObj kvs \<Rightarrow>
          map_of kvs ''type'' = Some (JStr ''object'')
          \<or> (case map_of kvs ''properties'' of None \<Rightarrow> False | Some p \<Rightarrow> truthy p)
      | _ \<Rightarrow> False)"

text \<open>
  The states of a component: the constructor creates it, and it then receives props or
  a selection of the user; a call that throws yields no state.
\<close>

inductive reachable ::
  "(json \<Rightarrow> json \<Rightarrow> bool) \<Rightarrow> (json \<Rightarrow> json \<Rightarrow> json \<Rightarrow> error + json) \<Rightarrow> component \<Rightarrow> bool"
  for isValid computeDefaults where
  created: "constructor isValid p = Inr c \<Longrightarrow> reachable isValid computeDefaults c"
| received: "reachable isValid computeDefaults c \<Longrightarrow>
     componentWillReceiveProps isValid c nextProps = Inr c' \<Longrightarrow>
     reachable isValid computeDefaults c'"
| selected: "reachable isValid computeDefaults c \<Longrightarrow>
     onOptionChange computeDefaults c option = Inr (emitted, c') \<Longrightarrow>
     reachable isValid computeDefaults c'"

section \<open>The scenario of the specification\<close>

text \<open>
  The union \<open>anyOf: [{type: "object", properties: {a: {type: "string"}}},
  {type: "object", properties: {b: {type: "number"}}}]\<close>.
\<close>

definition branchA :: json where
  "branchA = JObj [(''type'', JStr ''object''),
                   (''properties'', JObj [(''a'', JObj [(''type'', JStr ''string'')])])]"

definition branchB :: json where
  "branchB = JObj [(''type'', JStr ''object''),
                   (''properties'', JObj [(''b'', JObj [(''type'', JStr ''number'')])])]"

definition scenarioProps :: "json \<Rightarrow> props" where
  "scenarioProps data =
     \<lparr>props_formData = data, props_options = [branchA, branchB],
      props_registry_definitions = JObj []\<rparr>"

definition scenarioComponent :: "json \<Rightarrow> nat \<Rightarrow> component" where
  "scenarioComponent data k =
     \<lparr>props = scenarioProps data, state = Some \<lparr>selectedOption = k\<rparr>\<rparr>"

text \<open>A branch of a primitive type, and two object branches that both declare \<open>a\<close>.\<close>

definition stringBranch :: json where
  "stringBranch = JObj [(''type'', JStr ''string'')]"

definition sharedBranchA :: json where
  "sharedBranchA = JObj [(''properties'', JObj [(''a'', JObj [(''type'', JStr ''string'')]),
                                                (''c'', JObj [(''type'', JStr ''number'')])])]"

definition sharedBranchB :: json where
  "sharedBranchB = JObj [(''properties'',
      JObj [(''a'', JObj [(''type'', JStr ''string''), (''default'', JStr ''q'')]),
            (''b'', JObj [(''type'', JStr ''number''), (''default'', JNum 0)])])]"

text \<open>The component of a union with no branch.\<close>

definition emptyUnion :: component where
  "emptyUnion =
     \<lparr>props = \<lparr>props_formData = JUndefined, props_options = [],
               props_registry_definitions = JObj []\<rparr>,
      state = Some \<lparr>selectedOption = 0\<rparr>\<rparr>"

text \<open>A branch that is a reference only, beside an object branch.\<close>

definition refBranch :: json where
  "refBranch = JObj [(''$ref'', JStr ''#/definitions/Foo'')]"

definition refComponent :: "json \<Rightarrow> component" where
  "refComponent definitions =
     \<lparr>props = \<lparr>props_formData = JObj [(''a'', JStr ''x'')],
               props_options = [branchA, refBranch],
               props_registry_definitions = definitions\<rparr>,
      state = Some \<lparr>selectedOption = 0\<rparr>\<rparr>"

section \<open>The component on a store\<close>

text \<open>
  In the value model above nothing can be mutated. To state what \<open>getMatchingOption\<close>
  writes, the method is modelled a second time on a store: a value is a primitive or a
  reference, a cell is an object or an array whose members are values, and the store is
  the list of the cells, a reference being an index into it. Creating an object appends
  a cell; assigning to a property, \<open>push\<close> and \<open>delete\<close> overwrite the cell of the
  object they are applied to.
\<close>

datatype val =
    VUndefined
  | VNull
  | VBool bool
  | VNum int
  | VStr string
  | VRef nat

datatype cell = Object "(string \<times> val) list" | Array "val list"

type_synonym heap = "cell list"

text \<open>
  The cell of a reference, and the allocation of a new cell at the end of the store.
\<close>

definition cell_at :: "heap \<Rightarrow> nat \<Rightarrow> cell option" where
  "cell_at h a = (if a < length h then Some (h ! a) else None)"

definition alloc :: "heap \<Rightarrow> cell \<Rightarrow> heap \<times> nat" where
  "alloc h c = (h @ [c], length h)"

text \<open>
  \<open>ToBoolean\<close>, the own enumerable properties and the property read, as on values.
\<close>

fun truthy_val :: "val \<Rightarrow> bool" where
  "truthy_val VUndefined = False"
| "truthy_val VNull = False"
| "truthy_val (VBool b) = b"
| "truthy_val (VNum n) = (n \<noteq> 0)"
| "truthy_val (VStr s) = (s \<noteq> [])"
| "truthy_val (VRef a) = True"

fun entries_at :: "heap \<Rightarrow> val \<Rightarrow> (string \<times> val) list" where
  "entries_at h (VRef a) =
     (case cell_at h a of
        Some (Object kvs) \<Rightarrow> kvs
      | Some (Array xs) \<Rightarrow> zip (index_keys (length xs)) xs
      | None \<Rightarrow> [])"
| "entries_at h (VStr s) = zip (index_keys (length s)) (map (\<lambda>c. VStr [c]) s)"
| "entries_at h v = []"

fun get_at :: "heap \<Rightarrow> val \<Rightarrow> string \<Rightarrow> error + val" where
  "get_at h VUndefined name = Inl TypeError"
| "get_at h VNull name = Inl TypeError"
| "get_at h (VRef a) name =
     (case cell_at h a of
        Some (Object kvs) \<Rightarrow> Inr (case map_of kvs name of None \<Rightarrow> VUndefined | Some v \<Rightarrow> v)
      | _ \<Rightarrow> Inr VUndefined)"
| "get_at h v name = Inr VUndefined"

text \<open>
  \<open>o[name] = v\<close> and \<open>delete o[name]\<close> on the object at a reference.
\<close>

definition set_at :: "heap \<Rightarrow> nat \<Rightarrow> string \<Rightarrow> val \<Rightarrow> heap" where
  "set_at h a name v =
     (case cell_at h a of
        Some (Object kvs) \<Rightarrow> h[a := Object (AList.update name v kvs)]
      | _ \<Rightarrow> h)"

definition delete_at :: "heap \<Rightarrow> nat \<Rightarrow> string \<Rightarrow> heap" where
  "delete_at h a name =
     (case cell_at h a of
        Some (Object kvs) \<Rightarrow> h[a := Object (AList.delete name kvs)]
      | _ \<Rightarrow> h)"

text \<open>
  \<open>Object.assign(target, source)\<close>: the properties of the source, set one by one.
\<close>

definition assign_at :: "heap \<Rightarrow> nat \<Rightarrow> val \<Rightarrow> heap" where
  "assign_at h target source = fold (\<lambda>(k, v) h'. set_at h' target k v) (entries_at h source) h"

text \<open>
  \<open>v.slice()\<close>: a new array with the elements of an array, the string itself for a string.
\<close>

definition slice_at :: "heap \<Rightarrow> val \<Rightarrow> error + heap \<times> val" where
  "slice_at h v =
     (case v of
        VRef a \<Rightarrow>
          (case cell_at h a of
             Some (Array xs) \<Rightarrow> (let (h', copy) = alloc h (Array xs) in Inr (h', VRef copy))
           | _ \<Rightarrow> Inl TypeError)
      | VStr s \<Rightarrow> Inr (h, VStr s)
      | _ \<Rightarrow> Inl TypeError)"

text \<open>
  \<open>v.push(x)\<close>: only an array has the method.
\<close>

definition push_at :: "heap \<Rightarrow> val \<Rightarrow> val \<Rightarrow> error + heap" where
  "push_at h v x =
     (case v of
        VRef a \<Rightarrow>
          (case cell_at h a of
             Some (Array xs) \<Rightarrow> Inr (h[a := Array (xs @ [x])])
           | _ \<Rightarrow> Inl TypeError)
      | _ \<Rightarrow> Inl TypeError)"

text \<open>
  \<open>{ anyOf: keys.map(key => ({ required: [key] })) }\<close>: an array and an object are
  created for each key, then the array of these objects and the object that holds it.
\<close>

fun required_at :: "heap \<Rightarrow> string list \<Rightarrow> heap \<times> val list" where
  "required_at h [] = (h, [])"
| "required_at h (key # keys) =
     (let (h1, names) = alloc h (Array [VStr key]);
          (h2, entry) = alloc h1 (Object [(''required'', VRef names)]);
          (h3, rest) = required_at h2 keys
      in (h3, VRef entry # rest))"

definition requiresAnyOf_at :: "heap \<Rightarrow> string list \<Rightarrow> heap \<times> val" where
  "requiresAnyOf_at h keys =
     (let (h1, alternatives) = required_at h keys;
          (h2, list) = alloc h1 (Array alternatives);
          (h3, requiresAnyOf) = alloc h2 (Object [(''anyOf'', VRef list)])
      in (h3, VRef requiresAnyOf))"

text \<open>
  The augmented schema, statement by statement as in the source: the clone is a new
  object, \<open>shallowClone.allOf\<close> is assigned a new array (or the \<open>slice()\<close> of the old
  one), and \<open>push\<close> and \<open>delete\<close> are applied to what \<open>shallowClone.allOf\<close> and
  \<open>augmentedSchema\<close> then refer to.
\<close>

definition augmentedSchema_at :: "heap \<Rightarrow> val \<Rightarrow> val \<Rightarrow> val \<Rightarrow> heap \<times> (error + val)" where
  "augmentedSchema_at h definitions option properties =
     (let (h1, requiresAnyOf) = requiresAnyOf_at h (map fst (entries_at h properties)) in
      case get_at h1 option ''anyOf'' of
        Inl e \<Rightarrow> (h1, Inl e)
      | Inr anyOf \<Rightarrow>
          if truthy_val anyOf then
            (let (h2, shallowClone) = alloc h1 (Object (entries_at h1 option)) in
             case get_at h2 (VRef shallowClone) ''allOf'' of
               Inl e \<Rightarrow> (h2, Inl e)
             | Inr allOf \<Rightarrow>
                 (case (if \<not> truthy_val allOf
                        then (let (h3, empty) = alloc h2 (Array []) in Inr (h3, VRef empty))
                        else slice_at h2 allOf) of
                    Inl e \<Rightarrow> (h2, Inl e)
                  | Inr (h3, replacement) \<Rightarrow>
                      (let h4 = set_at h3 shallowClone ''allOf'' replacement in
                       case get_at h4 (VRef shallowClone) ''allOf'' of
                         Inl e \<Rightarrow> (h4, Inl e)
                       | Inr target \<Rightarrow>
                           (case push_at h4 target requiresAnyOf of
                              Inl e \<Rightarrow> (h4, Inl e)
                            | Inr h5 \<Rightarrow>
                                (delete_at h5 shallowClone ''required'', Inr (VRef shallowClone))))))
          else
            (let (h2, augmentedSchema) = alloc h1 (Object [(''definitions'', definitions)]);
                 h3 = assign_at h2 augmentedSchema option;
                 h4 = assign_at h3 augmentedSchema requiresAnyOf
             in (delete_at h4 augmentedSchema ''required'', Inr (VRef augmentedSchema))))"

definition matchSchema_at :: "heap \<Rightarrow> val \<Rightarrow> val \<Rightarrow> heap \<times> (error + val)" where
  "matchSchema_at h definitions option =
     (case get_at h option ''properties'' of
        Inl e \<Rightarrow> (h, Inl e)
      | Inr properties \<Rightarrow>
          if truthy_val properties then augmentedSchema_at h definitions option properties
          else (let (h1, schema) =
                      alloc h (Object (AList.update ''definitions'' definitions (entries_at h option)))
                in (h1, Inr (VRef schema))))"

text \<open>
  The loop reads \<open>options.length\<close> and \<open>options[i]\<close> from the store at each round;
  \<open>options\<close> is the reference of the array. The validator reads the store and cannot
  write it. The result is the store after the call and the value returned or thrown.
\<close>

function matchFrom_at ::
  "(heap \<Rightarrow> val \<Rightarrow> val \<Rightarrow> bool) \<Rightarrow> heap \<Rightarrow> val \<Rightarrow> nat \<Rightarrow> val \<Rightarrow> nat \<Rightarrow> heap \<times> (error + nat)" where
  "matchFrom_at isValid h formData options definitions i =
     (case cell_at h options of
        Some (Array elements) \<Rightarrow>
          if i < length elements then
            (case matchSchema_at h definitions (elements ! i) of
               (h', Inl e) \<Rightarrow> (h', Inl e)
             | (h', Inr schema) \<Rightarrow>
                 if isValid h' schema formData then (h', Inr i)
                 else matchFrom_at isValid h' formData options definitions (i + 1))
          else (h, Inr 0)
      | _ \<Rightarrow> (h, Inl TypeError))"
  by pat_completeness auto

definition getMatchingOption_at ::
  "(heap \<Rightarrow> val \<Rightarrow> val \<Rightarrow> bool) \<Rightarrow> heap \<Rightarrow> val \<Rightarrow> nat \<Rightarrow> val \<Rightarrow> heap \<times> (error + nat)" where
  "getMatchingOption_at isValid h formData options definitions =
     matchFrom_at isValid h formData options definitions 0"

text \<open>
  A value in a store represents a JavaScript value of the value model: the primitives
  represent themselves, a reference represents the object or array whose members are
  represented by the members of its cell.
\<close>

inductive repr :: "heap \<Rightarrow> val \<Rightarrow> json \<Rightarrow> bool" for h where
  undefined: "repr h VUndefined JUndefined"
| null: "repr h VNull JNull"
| bool: "repr h (VBool b) (JBool b)"
| num: "repr h (VNum n) (JNum n)"
| str: "repr h (VStr s) (JStr s)"
| obj: "cell_at h a = Some (Object kvs) \<Longrightarrow>
        list_all2 (\<lambda>kv kj. fst kv = fst kj \<and> repr h (snd kv) (snd kj)) kvs jkvs \<Longrightarrow>
        repr h (VRef a) (JObj jkvs)"
| arr: "cell_at h a = Some (Array xs) \<Longrightarrow> list_all2 (repr h) xs js \<Longrightarrow>
        repr h (VRef a) (JArr js)"

abbreviation repr_entries :: "heap \<Rightarrow> (string \<times> val) list \<Rightarrow> (string \<times> json) list \<Rightarrow> bool" where
  "repr_entries h \<equiv> list_all2 (\<lambda>kv kj. fst kv = fst kj \<and> repr h (snd kv) (snd kj))"

text \<open>
  A validator on the store is structural when its verdict is that of a validator on
  values at the values that schema and data represent: it depends on nothing else in the
  store. Every validator on values has a structural counterpart.
\<close>

definition structural :: "(heap \<Rightarrow> val \<Rightarrow> val \<Rightarrow> bool) \<Rightarrow> (json \<Rightarrow> json \<Rightarrow> bool) \<Rightarrow> bool" where
  "structural isValid_at isValid =
     (\<forall>h schema data jschema jdata.
        repr h schema jschema \<longrightarrow> repr h data jdata \<longrightarrow>
        isValid_at h schema data = isValid jschema jdata)"

definition lift_validator :: "(json \<Rightarrow> json \<Rightarrow> bool) \<Rightarrow> heap \<Rightarrow> val \<Rightarrow> val \<Rightarrow> bool" where
  "lift_validator isValid h schema data =
     (\<exists>jschema jdata. repr h schema jschema \<and> repr h data jdata \<and> isValid jschema jdata)"

text \<open>
  Stores for the examples: a union whose branch has \<open>properties\<close>, \<open>required\<close>,
  \<open>anyOf\<close> and \<open>allOf\<close>; the scenario of the specification; and the scenario once
  more at other references, beside an object that is no part of the inputs.
\<close>

definition unionStore :: heap where
  "unionStore =
     [Object [(''type'', VStr ''string'')],
      Object [(''a'', VRef 0)],
      Array [VStr ''a''],
      Object [],
      Array [VRef 3],
      Array [VRef 3],
      Object [(''properties'', VRef 1), (''required'', VRef 2), (''anyOf'', VRef 4),
              (''allOf'', VRef 5)],
      Array [VRef 6],
      Object [],
      Object [(''a'', VStr ''x'')]]"

definition scenarioStore :: heap where
  "scenarioStore =
     [Object [(''type'', VStr ''string'')],
      Object [(''a'', VRef 0)],
      Object [(''type'', VStr ''object''), (''properties'', VRef 1)],
      Object [(''type'', VStr ''number'')],
      Object [(''b'', VRef 3)],
      Object [(''type'', VStr ''object''), (''properties'', VRef 4)],
      Array [VRef 2, VRef 5],
      Object [],
      Object [(''b'', VNum 3)]]"

definition otherStore :: heap where
  "otherStore =
     [Object [(''selectedOption'', VNum 0)],
      Object [(''b'', VNum 3)],
      Object [],
      Array [VRef 6, VRef 9],
      Object [(''type'', VStr ''string'')],
      Object [(''a'', VRef 4)],
      Object [(''type'', VStr ''object''), (''properties'', VRef 5)],
      Object [(''type'', VStr ''number'')],
      Object [(''b'', VRef 7)],
      Object [(''type'', VStr ''object''), (''properties'', VRef 8)]]"

section \<open>Matching\<close>

lemma Object_keys_truthy: "truthy p \<Longrightarrow> Object_keys p = Inr (enumerable_keys p)"
  by (cases p) auto

lemma matchSchema_wellFormed:
  "wellFormedOption option \<Longrightarrow> \<exists>schema. matchSchema definitions option = Inr schema"
proof (cases option)
  case (JObj kvs)
  assume wf: "wellFormedOption option"
  show ?thesis
  proof (cases "truthy (case map_of kvs ''properties'' of None \<Rightarrow> JUndefined | Some v \<Rightarrow> v)")
    case False
    then show ?thesis using JObj by (simp add: matchSchema_def)
  next
    case p: True
    show ?thesis
    proof (cases "truthy (case map_of kvs ''anyOf'' of None \<Rightarrow> JUndefined | Some v \<Rightarrow> v)")
      case False
      then show ?thesis using JObj p
        by (simp add: matchSchema_def augmentedSchema_def Object_keys_truthy)
    next
      case a: True
      show ?thesis using JObj p a wf
        by (auto simp: matchSchema_def augmentedSchema_def Object_keys_truthy wellFormedOption_def split: option.splits json.splits)
    qed
  qed
qed (auto simp: matchSchema_def wellFormedOption_def)


lemma matchFrom_result:
  "matchFrom isValid formData definitions i options = Inr r \<Longrightarrow>
     (\<exists>k<length options. r = i + k \<and> optionValid isValid definitions formData (options ! k)
        \<and> (\<forall>m<k. \<not> optionValid isValid definitions formData (options ! m)))
     \<or> (r = 0 \<and> (\<forall>option\<in>set options. \<not> optionValid isValid definitions formData option))"
proof (induction options arbitrary: i)
  case Nil
  then show ?case by simp
next
  case (Cons option rest)
  from Cons.prems obtain schema where s: "matchSchema definitions option = Inr schema"
    by (auto split: sum.splits)
  show ?case
  proof (cases "isValid schema formData")
    case True
    with s Cons.prems have "r = i" by simp
    moreover from True s have "optionValid isValid definitions formData option"
      by (simp add: optionValid_def)
    ultimately show ?thesis by auto
  next
    case False
    with s have nv: "\<not> optionValid isValid definitions formData option"
      by (simp add: optionValid_def)
    from False s Cons.prems
    have "matchFrom isValid formData definitions (i + 1) rest = Inr r" by simp
    from Cons.IH [OF this] show ?thesis
    proof
      assume "\<exists>k<length rest. r = i + 1 + k \<and> optionValid isValid definitions formData (rest ! k)
        \<and> (\<forall>m<k. \<not> optionValid isValid definitions formData (rest ! m))"
      then obtain k where k: "k < length rest" "r = i + 1 + k"
        "optionValid isValid definitions formData (rest ! k)"
        "\<forall>m<k. \<not> optionValid isValid definitions formData (rest ! m)" by blast
      have "\<forall>m<Suc k. \<not> optionValid isValid definitions formData ((option # rest) ! m)"
        using nv k(4) by (auto simp: less_Suc_eq_0_disj)
      with k(1-3) have "Suc k < length (option # rest) \<and> r = i + Suc k
        \<and> optionValid isValid definitions formData ((option # rest) ! Suc k)
        \<and> (\<forall>m<Suc k. \<not> optionValid isValid definitions formData ((option # rest) ! m))"
        by simp
      then show ?thesis by blast
    next
      assume "r = 0 \<and> (\<forall>option\<in>set rest. \<not> optionValid isValid definitions formData option)"
      with nv show ?thesis by simp
    qed
  qed
qed

lemma matchFrom_total:
  "list_all wellFormedOption options \<Longrightarrow>
     \<exists>r. matchFrom isValid formData definitions i options = Inr r"
proof (induction options arbitrary: i)
  case Nil
  then show ?case by simp
next
  case (Cons option rest)
  then obtain schema where "matchSchema definitions option = Inr schema"
    using matchSchema_wellFormed by fastforce
  with Cons show ?case by simp
qed

text \<open>
  Claim C1, as amended. On well-formed options \<open>getMatchingOption\<close> returns an index.
  Whenever it returns \<open>i\<close>, no branch before \<open>i\<close> validates the form data against its
  augmented schema; if some branch does, \<open>i\<close> is an index of the list and branch \<open>i\<close>
  validates, so \<open>i\<close> is the smallest such index; if none does, \<open>i\<close> is 0.
\<close>

theorem getMatchingOption_first_valid:
  "(list_all wellFormedOption options \<longrightarrow>
      (\<exists>i. getMatchingOption isValid this formData options definitions = Inr i)) \<and>
   (\<forall>i. getMatchingOption isValid this formData options definitions = Inr i \<longrightarrow>
      (\<forall>k<i. \<not> optionValid isValid definitions formData (options ! k)) \<and>
      (if \<exists>option\<in>set options. optionValid isValid definitions formData option
       then i < length options \<and> optionValid isValid definitions formData (options ! i)
       else i = 0))"
proof -
  have total: "list_all wellFormedOption options \<longrightarrow>
      (\<exists>i. getMatchingOption isValid this formData options definitions = Inr i)"
    unfolding getMatchingOption_def using matchFrom_total by blast
  have partial: "\<forall>i. getMatchingOption isValid this formData options definitions = Inr i \<longrightarrow>
      (\<forall>k<i. \<not> optionValid isValid definitions formData (options ! k)) \<and>
      (if \<exists>option\<in>set options. optionValid isValid definitions formData option
       then i < length options \<and> optionValid isValid definitions formData (options ! i)
       else i = 0)"
  proof (rule allI, rule impI)
    fix i
    assume "getMatchingOption isValid this formData options definitions = Inr i"
    then have m: "matchFrom isValid formData definitions 0 options = Inr i"
      by (simp add: getMatchingOption_def)
    have before: "\<forall>k<i. \<not> optionValid isValid definitions formData (options ! k)"
      using matchFrom_result [OF m] by auto
    have found: "if \<exists>option\<in>set options. optionValid isValid definitions formData option
       then i < length options \<and> optionValid isValid definitions formData (options ! i)
       else i = 0"
      using matchFrom_result [OF m] nth_mem [of i options] by auto
    from before found
    show "(\<forall>k<i. \<not> optionValid isValid definitions formData (options ! k)) \<and>
      (if \<exists>option\<in>set options. optionValid isValid definitions formData option
       then i < length options \<and> optionValid isValid definitions formData (options ! i)
       else i = 0)" by (rule conjI)
  qed
  from total partial show ?thesis by (rule conjI)
qed

text \<open>The definitions that the examples evaluate.\<close>

lemmas scenario_defs =
  branchA_def branchB_def scenarioProps_def scenarioComponent_def
  getMatchingOption_def matchSchema_def augmentedSchema_def optionValid_def
  wellFormedOption_def assign_def enumerable_keys_def requiresAnyOf_def
  validates_def keyword_def resolvePointer_def typeOk_def typeMatches_def
  requiredOk_def present_def

theorem getMatchingOption_first_valid_witness:
  "getMatchingOption validates (scenarioComponent JNull 0) (JObj [(''b'', JNum 3)])
     [branchA, branchB] (JObj []) = Inr 1
   \<and> \<not> optionValid validates (JObj []) (JObj [(''b'', JNum 3)]) branchA
   \<and> optionValid validates (JObj []) (JObj [(''b'', JNum 3)]) branchB"
  using getMatchingOption_first_valid
    [of "[branchA, branchB]" validates "scenarioComponent JNull 0" "JObj [(''b'', JNum 3)]" "JObj []"]
  by (simp add: scenario_defs)

text \<open>
  The claim as stated fails where no branch validates: on the empty object the two
  branches of the scenario are both rejected, 0 is returned, and branch 0 does not
  validate.
\<close>

theorem getMatchingOption_first_valid_counterexample:
  "getMatchingOption validates (scenarioComponent (JObj []) 0) (JObj [])
     [branchA, branchB] (JObj []) = Inr 0
   \<and> \<not> optionValid validates (JObj []) (JObj []) ([branchA, branchB] ! 0)"
  by (simp add: scenario_defs)

text \<open>
  Claim C3. If the options are well-formed and no branch's augmented schema validates
  the form data, whatever the form data is (\<open>undefined\<close> included),
  \<open>getMatchingOption\<close> returns 0.
\<close>

theorem getMatchingOption_no_match:
  assumes "list_all wellFormedOption options"
    and "\<forall>option\<in>set options. \<not> optionValid isValid definitions formData option"
  shows "getMatchingOption isValid this formData options definitions = Inr 0"
proof -
  from matchFrom_total [OF assms(1)]
  obtain r where r: "matchFrom isValid formData definitions 0 options = Inr r" by blast
  from matchFrom_result [OF r] assms(2) have "r = 0" by auto
  with r show ?thesis by (simp add: getMatchingOption_def)
qed

theorem getMatchingOption_no_match_witness:
  "list_all wellFormedOption [branchA, branchB]
   \<and> \<not> optionValid validates (JObj []) JUndefined branchA
   \<and> \<not> optionValid validates (JObj []) JUndefined branchB
   \<and> getMatchingOption validates (scenarioComponent JUndefined 1) JUndefined
        [branchA, branchB] (JObj []) = Inr 0"
  using getMatchingOption_no_match
    [of "[branchA, branchB]" validates "JObj []" JUndefined "scenarioComponent JUndefined 1"]
  by (simp add: scenario_defs)

section \<open>Switching\<close>

lemma element_at_index: "j < length xs \<Longrightarrow> element_at xs (Some (int j)) = xs ! j"
  by (simp add: element_at_def)

lemma objectSwitch_object:
  "newOption \<noteq> JUndefined \<Longrightarrow> newOption \<noteq> JNull \<Longrightarrow>
     objectSwitch (JObj fkvs) newOption = Inr (objectTyped newOption)"
  by (cases newOption) (auto simp: objectSwitch_def objectTyped_def split: option.splits)

lemma objectSwitch_objectTyped:
  "guessType formData = ''object'' \<Longrightarrow> objectTyped newOption \<Longrightarrow>
     objectSwitch formData newOption = Inr True"
  by (cases newOption) (auto simp: objectSwitch_def objectTyped_def split: option.splits)

lemma objectSwitch_other: "guessType formData \<noteq> ''object'' \<Longrightarrow> objectSwitch formData newOption = Inr False"
  by (simp add: objectSwitch_def)

lemma delete_filter: "AList.delete k kvs = filter (\<lambda>(k', v). k' \<noteq> k) kvs"
  by (induction kvs) auto

lemma filter_absent: "k \<notin> fst ` set kvs \<Longrightarrow> filter (\<lambda>(k', v). k' \<noteq> k) kvs = kvs"
  by (induction kvs) auto

lemma filter_keys_twice:
  "filter (\<lambda>(k, v). k \<notin> A) (filter (\<lambda>(k, v). k \<notin> B) kvs) = filter (\<lambda>(k, v). k \<notin> B \<union> A) kvs"
  by (induction kvs) auto

lemma discardKey_object:
  "''hasOwnProperty'' \<notin> fst ` set kvs \<Longrightarrow>
     discardKey (JObj kvs) k = Inr (JObj (filter (\<lambda>(k', v). k' \<notin> {k}) kvs))"
  by (simp add: delete_filter filter_absent)

lemma discardKeys_object:
  "''hasOwnProperty'' \<notin> fst ` set kvs \<Longrightarrow>
     discardKeys (JObj kvs) ks = Inr (JObj (filter (\<lambda>(k, v). k \<notin> set ks) kvs))"
proof (induction ks arbitrary: kvs)
  case Nil
  then show ?case by simp
next
  case (Cons k ks)
  let ?kvs' = "filter (\<lambda>(k', v). k' \<notin> {k}) kvs"
  have step: "discardKey (JObj kvs) k = Inr (JObj ?kvs')"
    using Cons.prems by (rule discardKey_object)
  have "''hasOwnProperty'' \<notin> fst ` set ?kvs'"
    using Cons.prems by auto
  then have "discardKeys (JObj ?kvs') ks = Inr (JObj (filter (\<lambda>(k, v). k \<notin> set ks) ?kvs'))"
    by (rule Cons.IH)
  moreover have "discardKeys (JObj kvs) (k # ks) = discardKeys (JObj ?kvs') ks"
    by (simp only: discardKeys.simps step sum.case)
  ultimately show ?case
    by (simp only: filter_keys_twice) simp
qed

lemma discardOptions_object:
  "''hasOwnProperty'' \<notin> fst ` set kvs \<Longrightarrow>
   \<forall>option\<in>set others. option \<noteq> JUndefined \<and> option \<noteq> JNull \<Longrightarrow>
     discardOptions (JObj kvs) others =
       Inr (JObj (filter (\<lambda>(k, v). k \<notin> set (concat (map declaredKeys others))) kvs))"
proof (induction others arbitrary: kvs)
  case Nil
  then show ?case by simp
next
  case (Cons option rest)
  from Cons.prems obtain properties where p: "js_get option ''properties'' = Inr properties"
    by (cases option) auto
  have rest: "\<forall>option\<in>set rest. option \<noteq> JUndefined \<and> option \<noteq> JNull"
    using Cons.prems(2) by simp
  show ?case
  proof (cases "truthy properties")
    case False
    with p have "declaredKeys option = []" by (simp add: declaredKeys_def)
    moreover from False p
    have "discardOptions (JObj kvs) (option # rest) = discardOptions (JObj kvs) rest" by simp
    ultimately show ?thesis using Cons.IH [OF Cons.prems(1) rest] by simp
  next
    case True
    let ?kvs' = "filter (\<lambda>(k, v). k \<notin> set (enumerable_keys properties)) kvs"
    from True p have d: "declaredKeys option = enumerable_keys properties"
      by (simp add: declaredKeys_def)
    have "''hasOwnProperty'' \<notin> fst ` set ?kvs'"
      using Cons.prems(1) by auto
    then have "discardOptions (JObj ?kvs') rest =
       Inr (JObj (filter (\<lambda>(k, v). k \<notin> set (concat (map declaredKeys rest))) ?kvs'))"
      using rest by (rule Cons.IH)
    moreover have "discardOptions (JObj kvs) (option # rest) = discardOptions (JObj ?kvs') rest"
      using True p by (simp add: discardKeys_object [OF Cons.prems(1)])
    ultimately show ?thesis
      by (simp only: filter_keys_twice) (simp add: d)
  qed
qed

lemma others_member:
  "i < length xs \<Longrightarrow> i \<noteq> j \<Longrightarrow> xs ! i \<in> set (take j xs @ drop (Suc j) xs)"
proof (cases "i < j")
  case True
  assume "i < length xs"
  with True have "xs ! i = take j xs ! i" "i < length (take j xs)" by simp_all
  then have "xs ! i \<in> set (take j xs)" by (metis nth_mem)
  then show ?thesis by simp
next
  case False
  assume "i < length xs" "i \<noteq> j"
  with False have "Suc j \<le> i" by simp
  with \<open>i < length xs\<close> have "drop (Suc j) xs ! (i - Suc j) = xs ! i"
    "i - Suc j < length (drop (Suc j) xs)" by simp_all
  then have "xs ! i \<in> set (drop (Suc j) xs)" by (metis nth_mem)
  then show ?thesis by simp
qed

text \<open>
  Claim C4. A switch to index \<open>j\<close> with object form data and an object-typed (resolved)
  branch \<open>j\<close> emits the defaults computed for that branch against the empty object, with
  every property name that another branch declares deleted, and selects \<open>j\<close>. The
  defaults are an object that has no property named \<open>hasOwnProperty\<close>, and no option is
  \<open>undefined\<close> or \<open>null\<close>.
\<close>

theorem onOptionChange_object_defaults:
  assumes "parseInt10 option = Some (int j)"
    and "j < length (props_options (props this))"
    and "\<forall>other\<in>set (props_options (props this)). other \<noteq> JUndefined \<and> other \<noteq> JNull"
    and "guessType (props_formData (props this)) = ''object''"
    and "resolveOption (props_registry_definitions (props this)) (props_options (props this) ! j)
           = Inr newOption"
    and "objectTyped newOption"
    and "computeDefaults newOption (JObj []) (props_registry_definitions (props this))
           = Inr (JObj defaults)"
    and "''hasOwnProperty'' \<notin> fst ` set defaults"
  shows "onOptionChange computeDefaults this option =
           Inr (JObj (filter (\<lambda>(k, v). k \<notin> set (concat (map declaredKeys
                        (take j (props_options (props this))
                         @ drop (Suc j) (props_options (props this)))))) defaults),
                this\<lparr>state := Some \<lparr>selectedOption = j\<rparr>\<rparr>)"
proof -
  have others: "\<forall>other\<in>set (take j (props_options (props this))
                   @ drop (Suc j) (props_options (props this))). other \<noteq> JUndefined \<and> other \<noteq> JNull"
    using assms(3) by (auto dest: in_set_takeD in_set_dropD)
  show ?thesis
    unfolding onOptionChange_def Let_def
    by (simp add: assms(1,2,5,7) element_at_index objectSwitch_objectTyped [OF assms(4,6)]
          discardOptions_object [OF assms(8) others])
qed

lemmas switch_defs =
  branchA_def branchB_def scenarioProps_def scenarioComponent_def stringBranch_def
  sharedBranchA_def sharedBranchB_def declaredDefaults_def
  parseInt10_def is_space_def is_digit_def digits_value_def
  resolveOption_def objectTyped_def declaredKeys_def enumerable_keys_def

theorem onOptionChange_object_defaults_witness:
  "onOptionChange declaredDefaults (scenarioComponent (JObj [(''a'', JStr ''x'')]) 0) ''1'' =
     Inr (JObj [], scenarioComponent (JObj [(''a'', JStr ''x'')]) 1)"
  using onOptionChange_object_defaults
    [of "''1''" 1 "scenarioComponent (JObj [(''a'', JStr ''x'')]) 0" branchB declaredDefaults "[]"]
  by (simp add: switch_defs)


text \<open>
  Claim C5. A switch to index \<open>j\<close> emits \<open>undefined\<close> and selects \<open>j\<close> when the form
  data is not an object, or when the (resolved) branch \<open>j\<close> is not object-typed.
\<close>

theorem onOptionChange_undefined:
  assumes "parseInt10 option = Some (int j)"
    and "j < length (props_options (props this))"
    and "resolveOption (props_registry_definitions (props this)) (props_options (props this) ! j)
           = Inr newOption"
    and "guessType (props_formData (props this)) \<noteq> ''object''
         \<or> (\<not> objectTyped newOption \<and> newOption \<noteq> JUndefined \<and> newOption \<noteq> JNull)"
  shows "onOptionChange computeDefaults this option =
           Inr (JUndefined, this\<lparr>state := Some \<lparr>selectedOption = j\<rparr>\<rparr>)"
proof -
  have "objectSwitch (props_formData (props this)) newOption = Inr False"
  proof (cases "guessType (props_formData (props this)) = ''object''")
    case False
    then show ?thesis by (rule objectSwitch_other)
  next
    case True
    then obtain fkvs where "props_formData (props this) = JObj fkvs"
      by (cases "props_formData (props this)") auto
    with True assms(4) show ?thesis by (simp add: objectSwitch_object)
  qed
  then show ?thesis
    unfolding onOptionChange_def Let_def
    by (simp add: assms(1-3) element_at_index)
qed

theorem onOptionChange_undefined_witness:
  "onOptionChange declaredDefaults
     \<lparr>props = \<lparr>props_formData = JObj [(''a'', JStr ''x'')],
               props_options = [branchA, stringBranch],
               props_registry_definitions = JObj []\<rparr>,
      state = Some \<lparr>selectedOption = 0\<rparr>\<rparr> ''1'' =
   Inr (JUndefined,
     \<lparr>props = \<lparr>props_formData = JObj [(''a'', JStr ''x'')],
               props_options = [branchA, stringBranch],
               props_registry_definitions = JObj []\<rparr>,
      state = Some \<lparr>selectedOption = 1\<rparr>\<rparr>)"
  using onOptionChange_undefined
    [of "''1''" 1 "\<lparr>props = \<lparr>props_formData = JObj [(''a'', JStr ''x'')],
               props_options = [branchA, stringBranch],
               props_registry_definitions = JObj []\<rparr>,
      state = Some \<lparr>selectedOption = 0\<rparr>\<rparr>" stringBranch declaredDefaults]
  by (simp add: switch_defs)

text \<open>
  Claim C10. After a switch with object form data to an object-typed branch, the emitted
  object has no key that a branch other than the selected one declares, whether or not
  the selected branch declares the key as well.
\<close>

theorem onOptionChange_no_foreign_key:
  assumes "parseInt10 option = Some (int j)"
    and "j < length (props_options (props this))"
    and "\<forall>other\<in>set (props_options (props this)). other \<noteq> JUndefined \<and> other \<noteq> JNull"
    and "guessType (props_formData (props this)) = ''object''"
    and "resolveOption (props_registry_definitions (props this)) (props_options (props this) ! j)
           = Inr newOption"
    and "objectTyped newOption"
    and "computeDefaults newOption (JObj []) (props_registry_definitions (props this))
           = Inr (JObj defaults)"
    and "''hasOwnProperty'' \<notin> fst ` set defaults"
  shows "\<exists>emitted this'. onOptionChange computeDefaults this option = Inr (JObj emitted, this')
           \<and> (\<forall>i<length (props_options (props this)). i \<noteq> j \<longrightarrow>
                 (\<forall>k\<in>set (declaredKeys (props_options (props this) ! i)).
                    k \<notin> fst ` set emitted))"
proof -
  let ?options = "props_options (props this)"
  let ?others = "take j ?options @ drop (Suc j) ?options"
  let ?emitted = "filter (\<lambda>(k, v). k \<notin> set (concat (map declaredKeys ?others))) defaults"
  have others: "\<forall>other\<in>set ?others. other \<noteq> JUndefined \<and> other \<noteq> JNull"
    using assms(3) by (auto dest: in_set_takeD in_set_dropD)
  have run: "onOptionChange computeDefaults this option =
      Inr (JObj ?emitted, this\<lparr>state := Some \<lparr>selectedOption = j\<rparr>\<rparr>)"
    unfolding onOptionChange_def Let_def
    by (simp add: assms(1,2,5,7) element_at_index objectSwitch_objectTyped [OF assms(4,6)]
          discardOptions_object [OF assms(8) others])
  have "\<forall>i<length ?options. i \<noteq> j \<longrightarrow>
          (\<forall>k\<in>set (declaredKeys (?options ! i)). k \<notin> fst ` set ?emitted)"
  proof (intro allI impI ballI)
    fix i k
    assume "i < length ?options" "i \<noteq> j" "k \<in> set (declaredKeys (?options ! i))"
    then have "k \<in> set (concat (map declaredKeys ?others))"
      using others_member [of i ?options j] by auto
    then show "k \<notin> fst ` set ?emitted" by auto
  qed
  with run show ?thesis by blast
qed

theorem onOptionChange_no_foreign_key_witness:
  "onOptionChange declaredDefaults
     \<lparr>props = \<lparr>props_formData = JObj [(''c'', JNum 1)],
               props_options = [sharedBranchA, sharedBranchB],
               props_registry_definitions = JObj []\<rparr>,
      state = Some \<lparr>selectedOption = 0\<rparr>\<rparr> ''1'' =
   Inr (JObj [(''b'', JNum 0)],
     \<lparr>props = \<lparr>props_formData = JObj [(''c'', JNum 1)],
               props_options = [sharedBranchA, sharedBranchB],
               props_registry_definitions = JObj []\<rparr>,
      state = Some \<lparr>selectedOption = 1\<rparr>\<rparr>)
   \<and> declaredDefaults sharedBranchB (JObj []) (JObj []) = Inr (JObj [(''a'', JStr ''q''), (''b'', JNum 0)])
   \<and> ''a'' \<in> set (declaredKeys sharedBranchA) \<and> ''a'' \<in> set (declaredKeys sharedBranchB)"
  using onOptionChange_no_foreign_key
    [of "''1''" 1 "\<lparr>props = \<lparr>props_formData = JObj [(''c'', JNum 1)],
               props_options = [sharedBranchA, sharedBranchB],
               props_registry_definitions = JObj []\<rparr>,
      state = Some \<lparr>selectedOption = 0\<rparr>\<rparr>" sharedBranchB declaredDefaults
      "[(''a'', JStr ''q''), (''b'', JNum 0)]"]
  by (simp add: switch_defs onOptionChange_def element_at_def objectSwitch_def)

section \<open>The selected option\<close>

lemma getMatchingOption_bound:
  assumes "getMatchingOption isValid this formData options definitions = Inr r"
  shows "if options = [] then r = 0 else r < length options"
proof -
  from assms have "matchFrom isValid formData definitions 0 options = Inr r"
    by (simp add: getMatchingOption_def)
  from matchFrom_result [OF this] show ?thesis by auto
qed

lemma matchSchema_error: "matchSchema definitions option = Inl e \<Longrightarrow> e = TypeError"
  by (cases option)
     (auto simp: matchSchema_def augmentedSchema_def Object_keys_truthy
           split: if_splits sum.splits json.splits option.splits)

lemma matchFrom_error:
  "matchFrom isValid formData definitions i options = Inl e \<Longrightarrow> e = TypeError"
proof (induction options arbitrary: i)
  case Nil
  then show ?case by simp
next
  case (Cons option rest)
  then show ?case
    by (auto split: sum.splits if_splits dest: matchSchema_error)
qed

lemma onOptionChange_selected:
  assumes "onOptionChange computeDefaults this option = Inr (emitted, this')"
  shows "\<exists>j. parseInt10 option = Some (int j) \<and> j < length (props_options (props this))
            \<and> this' = this\<lparr>state := Some \<lparr>selectedOption = j\<rparr>\<rparr>"
proof (cases "parseInt10 option")
  case None
  with assms show ?thesis
    by (simp add: onOptionChange_def element_at_def resolveOption_def)
next
  case (Some i)
  show ?thesis
  proof (cases "0 \<le> i \<and> nat i < length (props_options (props this))")
    case False
    with Some assms show ?thesis
      by (simp add: onOptionChange_def element_at_def resolveOption_def)
  next
    case True
    then have i: "i = int (nat i)" by simp
    from assms Some have "this' = this\<lparr>state := Some \<lparr>selectedOption = nat i\<rparr>\<rparr>"
      by (auto simp: onOptionChange_def Let_def split: sum.splits bool.splits)
    with True Some i show ?thesis by metis
  qed
qed

text \<open>
  Claim C7, as amended. In every reachable state of the component the selected option is
  an index of the branch list when the list is not empty, and 0 when it is empty.
\<close>

theorem selectedOption_in_range:
  assumes "reachable isValid computeDefaults c"
  shows "\<exists>st. state c = Some st \<and>
           (if props_options (props c) = [] then selectedOption st = 0
            else selectedOption st < length (props_options (props c)))"
  using assms
proof (induction rule: reachable.induct)
  case (created p c)
  then obtain r where r: "getMatchingOption isValid \<lparr>props = p, state = None\<rparr>
      (props_formData p) (props_options p) (props_registry_definitions p) = Inr r"
    and c: "c = \<lparr>props = p, state = Some \<lparr>selectedOption = r\<rparr>\<rparr>"
    by (auto simp: constructor_def Let_def split: sum.splits)
  from getMatchingOption_bound [OF r] c show ?case by simp
next
  case (received c nextProps c')
  from received.hyps(2) obtain r st where
    r: "getMatchingOption isValid c (props_formData nextProps) (props_options nextProps)
          (props_registry_definitions nextProps) = Inr r"
    and st: "state c = Some st"
    and c': "c' = (if r = selectedOption st then c\<lparr>props := nextProps\<rparr>
                   else c\<lparr>props := nextProps, state := Some (st\<lparr>selectedOption := r\<rparr>)\<rparr>)"
    by (auto simp: componentWillReceiveProps_def split: sum.splits option.splits if_splits)
  from getMatchingOption_bound [OF r] st c' show ?case by (auto split: if_splits)
next
  case (selected c option emitted c')
  from onOptionChange_selected [OF selected.hyps(2)] show ?case by auto
qed

lemma scenario_created:
  "reachable validates declaredDefaults (scenarioComponent (JObj [(''a'', JStr ''x'')]) 0)"
  by (rule reachable.created [of _ "scenarioProps (JObj [(''a'', JStr ''x'')])"])
     (simp add: constructor_def scenario_defs)

lemma scenario_selected:
  "reachable validates declaredDefaults (scenarioComponent (JObj [(''a'', JStr ''x'')]) 1)"
  by (rule reachable.selected [OF scenario_created, where option = "''1''" and emitted = "JObj []"])
     (simp add: switch_defs onOptionChange_def element_at_def objectSwitch_def)

theorem selectedOption_in_range_witness:
  "reachable validates declaredDefaults (scenarioComponent (JObj [(''a'', JStr ''x'')]) 1)
   \<and> state (scenarioComponent (JObj [(''a'', JStr ''x'')]) 1) = Some \<lparr>selectedOption = 1\<rparr>
   \<and> 1 < length (props_options (props (scenarioComponent (JObj [(''a'', JStr ''x'')]) 1)))"
  using selectedOption_in_range [OF scenario_selected] scenario_selected
  by (simp add: scenarioComponent_def scenarioProps_def)

text \<open>
  The claim as stated fails on the empty branch list: the constructor selects 0, which is
  no index of the list.
\<close>

theorem selectedOption_in_range_counterexample:
  "reachable validates declaredDefaults emptyUnion
   \<and> \<not> selectedOption (the (state emptyUnion)) < length (props_options (props emptyUnion))"
proof -
  have "reachable validates declaredDefaults emptyUnion"
    by (rule reachable.created [of _ "\<lparr>props_formData = JUndefined, props_options = [],
               props_registry_definitions = JObj []\<rparr>"])
       (simp add: constructor_def getMatchingOption_def emptyUnion_def)
  then show ?thesis by (simp add: emptyUnion_def)
qed

text \<open>
  Claim C2, evaluated on the scenario. The user has selected branch 1 (a reachable
  state); the props then carry the empty object, which no branch validates;
  \<open>componentWillReceiveProps\<close> sets the selection to 0.
\<close>

theorem componentWillReceiveProps_resets_selection:
  "reachable validates declaredDefaults (scenarioComponent (JObj [(''a'', JStr ''x'')]) 1)
   \<and> \<not> optionValid validates (JObj []) (JObj []) branchA
   \<and> \<not> optionValid validates (JObj []) (JObj []) branchB
   \<and> componentWillReceiveProps validates
        (scenarioComponent (JObj [(''a'', JStr ''x'')]) 1) (scenarioProps (JObj []))
       = Inr (scenarioComponent (JObj []) 0)"
  using scenario_selected
  by (simp add: componentWillReceiveProps_def scenario_defs)

section \<open>References\<close>

lemma strip_prefix_append: "strip_prefix p (p @ s) = Some s"
  by (induction p) auto

lemma findSchemaDefinition_table:
  "findSchemaDefinition (JStr (''#/definitions/'' @ name)) (JObj table) =
     (case map_of table name of
        None \<Rightarrow> Inl (SchemaReferenceError (''#/definitions/'' @ name))
      | Some schema \<Rightarrow> Inr schema)"
  unfolding findSchemaDefinition_def
  by (simp only: json.case strip_prefix_append option.case)

lemma resolveOption_ref:
  "resolveOption definitions (JObj [(''$ref'', ref)]) = findSchemaDefinition ref definitions"
  by (simp add: resolveOption_def)

text \<open>
  Claim C6, as amended. Switching to a branch that is a reference only resolves it through
  the definitions table: an absent entry raises the reference error, a present one is
  the new branch. Matching does not resolve the branch: the schema it validates against
  is the branch with the definitions table added, and matching never raises a reference
  error.
\<close>

theorem ref_branch_resolution:
  "(parseInt10 option = Some (int j) \<and> j < length (props_options (props this))
      \<and> props_options (props this) ! j = JObj [(''$ref'', JStr (''#/definitions/'' @ name))]
      \<and> props_registry_definitions (props this) = JObj table
      \<and> map_of table name = None
     \<longrightarrow> onOptionChange computeDefaults this option
           = Inl (SchemaReferenceError (''#/definitions/'' @ name)))
   \<and> (map_of table name = Some schema
     \<longrightarrow> resolveOption (JObj table) (JObj [(''$ref'', JStr (''#/definitions/'' @ name))])
           = Inr schema)
   \<and> matchSchema definitions (JObj [(''$ref'', ref)])
       = Inr (JObj [(''$ref'', ref), (''definitions'', definitions)])
   \<and> getMatchingOption isValid this formData options definitions
       \<noteq> Inl (SchemaReferenceError r)"
proof -
  have switch: "parseInt10 option = Some (int j) \<and> j < length (props_options (props this))
      \<and> props_options (props this) ! j = JObj [(''$ref'', JStr (''#/definitions/'' @ name))]
      \<and> props_registry_definitions (props this) = JObj table
      \<and> map_of table name = None
     \<longrightarrow> onOptionChange computeDefaults this option
           = Inl (SchemaReferenceError (''#/definitions/'' @ name))"
    unfolding onOptionChange_def Let_def
    by (auto simp only: element_at_index resolveOption_ref findSchemaDefinition_table
          option.case sum.case)
  have resolve: "map_of table name = Some schema
     \<longrightarrow> resolveOption (JObj table) (JObj [(''$ref'', JStr (''#/definitions/'' @ name))])
           = Inr schema"
    by (simp only: resolveOption_ref findSchemaDefinition_table) simp
  have schema: "matchSchema definitions (JObj [(''$ref'', ref)])
       = Inr (JObj [(''$ref'', ref), (''definitions'', definitions)])"
    by (simp add: matchSchema_def)
  have "getMatchingOption isValid this formData options definitions
       \<noteq> Inl (SchemaReferenceError r)"
    unfolding getMatchingOption_def using matchFrom_error by fastforce
  with switch resolve schema show ?thesis by blast
qed

theorem ref_branch_resolution_witness:
  "onOptionChange declaredDefaults (refComponent (JObj [])) ''1''
     = Inl (SchemaReferenceError ''#/definitions/Foo'')
   \<and> resolveOption (JObj [(''Foo'', branchB)]) refBranch = Inr branchB
   \<and> matchSchema (JObj []) refBranch
       = Inr (JObj [(''$ref'', JStr ''#/definitions/Foo''), (''definitions'', JObj [])])"
  using ref_branch_resolution
    [of "''1''" 1 "refComponent (JObj [])" "''Foo''" "[]" declaredDefaults]
    ref_branch_resolution
    [of _ _ _ "''Foo''" "[(''Foo'', branchB)]" _ branchB "JObj []" "JStr ''#/definitions/Foo''"]
  by (simp add: refBranch_def refComponent_def parseInt10_def is_space_def is_digit_def
        digits_value_def)

text \<open>
  The claim as stated fails for matching: with the entry \<open>Foo\<close> absent from the
  definitions table, \<open>getMatchingOption\<close> on the reference branch returns an index and
  raises nothing.
\<close>

theorem ref_branch_resolution_counterexample:
  "getMatchingOption validates (refComponent (JObj [])) (JObj [(''a'', JStr ''x'')])
     [refBranch] (JObj []) = Inr 0
   \<and> findSchemaDefinition (JStr ''#/definitions/Foo'') (JObj [])
       = Inl (SchemaReferenceError ''#/definitions/Foo'')"
  by (simp add: getMatchingOption_def matchSchema_def refBranch_def findSchemaDefinition_def)

section \<open>The store is only extended\<close>

lemma prefix_update: "prefix b h \<Longrightarrow> length b \<le> a \<Longrightarrow> prefix b (h[a := c])"
  by (auto simp: prefix_def list_update_append)

lemma prefix_alloc: "prefix b h \<Longrightarrow> alloc h c = (h', a) \<Longrightarrow> prefix b h'"
  by (auto simp: alloc_def prefix_def)

lemma alloc_fresh: "alloc h c = (h', a) \<Longrightarrow> a = length h \<and> length h' = Suc (length h)"
  by (auto simp: alloc_def)

lemma alloc_cell: "alloc h c = (h', a) \<Longrightarrow> cell_at h' a = Some c"
  by (auto simp: alloc_def cell_at_def)

lemma length_set_at [simp]: "length (set_at h a k v) = length h"
  by (simp add: set_at_def split: option.splits cell.splits)

lemma length_delete_at [simp]: "length (delete_at h a k) = length h"
  by (simp add: delete_at_def split: option.splits cell.splits)

lemma prefix_set_at: "prefix b h \<Longrightarrow> length b \<le> a \<Longrightarrow> prefix b (set_at h a k v)"
  by (simp add: set_at_def prefix_update split: option.splits cell.splits)

lemma prefix_delete_at: "prefix b h \<Longrightarrow> length b \<le> a \<Longrightarrow> prefix b (delete_at h a k)"
  by (simp add: delete_at_def prefix_update split: option.splits cell.splits)

lemma prefix_fold_set_at:
  "prefix b h \<Longrightarrow> length b \<le> a \<Longrightarrow> prefix b (fold (\<lambda>(k, v) h'. set_at h' a k v) kvs h)"
  by (induction kvs arbitrary: h) (auto simp: prefix_set_at)

lemma length_fold_set_at [simp]: "length (fold (\<lambda>(k, v) h'. set_at h' a k v) kvs h) = length h"
  by (induction kvs arbitrary: h) auto

lemma prefix_assign_at: "prefix b h \<Longrightarrow> length b \<le> a \<Longrightarrow> prefix b (assign_at h a source)"
  by (simp add: assign_at_def prefix_fold_set_at)

lemma length_assign_at [simp]: "length (assign_at h a source) = length h"
  by (simp add: assign_at_def)

lemma prefix_push_at:
  "prefix b h \<Longrightarrow> push_at h (VRef a) x = Inr h' \<Longrightarrow> length b \<le> a \<Longrightarrow> prefix b h'"
  by (auto simp: push_at_def prefix_update split: option.splits cell.splits)

lemma push_at_ref: "push_at h v x = Inr h' \<Longrightarrow> \<exists>a. v = VRef a"
  by (auto simp: push_at_def split: val.splits)

lemma prefix_slice_at: "prefix b h \<Longrightarrow> slice_at h v = Inr (h', r) \<Longrightarrow> prefix b h'"
  by (auto simp: slice_at_def alloc_def prefix_def split: val.splits option.splits cell.splits)

lemma slice_at_fresh:
  "slice_at h v = Inr (h', VRef a) \<Longrightarrow> length h \<le> a"
  by (auto simp: slice_at_def alloc_def split: val.splits option.splits cell.splits)

lemma slice_at_length: "slice_at h v = Inr (h', r) \<Longrightarrow> length h \<le> length h'"
  by (auto simp: slice_at_def alloc_def split: val.splits option.splits cell.splits)

lemma prefix_required_at: "prefix b h \<Longrightarrow> required_at h keys = (h', vs) \<Longrightarrow> prefix b h'"
proof (induction keys arbitrary: h h' vs)
  case Nil
  then show ?case by simp
next
  case (Cons key keys)
  obtain h1 names where a1: "alloc h (Array [VStr key]) = (h1, names)" by force
  obtain h2 entry where a2: "alloc h1 (Object [(''required'', VRef names)]) = (h2, entry)" by force
  obtain h3 rest where r: "required_at h2 keys = (h3, rest)" by force
  from Cons.prems(1) a1 have "prefix b h1" by (rule prefix_alloc)
  then have "prefix b h2" using a2 by (rule prefix_alloc)
  then have "prefix b h3" using r by (rule Cons.IH)
  with Cons.prems(2) a1 a2 r show ?case by simp
qed

lemma prefix_requiresAnyOf_at:
  assumes "prefix b h" and "requiresAnyOf_at h keys = (h', r)"
  shows "prefix b h'"
proof -
  obtain h1 alternatives where a: "required_at h keys = (h1, alternatives)" by force
  obtain h2 list where l: "alloc h1 (Array alternatives) = (h2, list)" by force
  obtain h3 entry where e: "alloc h2 (Object [(''anyOf'', VRef list)]) = (h3, entry)" by force
  from assms(2) a l e have "h' = h3" by (simp add: requiresAnyOf_at_def)
  moreover from assms(1) a have "prefix b h1" by (rule prefix_required_at)
  then have "prefix b h2" using l by (rule prefix_alloc)
  then have "prefix b h3" using e by (rule prefix_alloc)
  ultimately show ?thesis by simp
qed

lemma get_set_at:
  "cell_at h a = Some (Object kvs) \<Longrightarrow> get_at (set_at h a k v) (VRef a) k = Inr v"
  by (auto simp: set_at_def cell_at_def update_conv' split: if_splits)


lemma prefix_length: "prefix b h \<Longrightarrow> length b \<le> length h"
  by (auto simp: prefix_def)

lemma requiresAnyOf_at_length: "requiresAnyOf_at h keys = (h', r) \<Longrightarrow> length h \<le> length h'"
  using prefix_requiresAnyOf_at [of h h keys h' r] by (simp add: prefix_length)

lemma prefix_augmentedSchema_at:
  assumes b: "prefix b h"
    and run: "augmentedSchema_at h definitions option properties = (h', r)"
  shows "prefix b h'"
proof -
  obtain h1 req
    where req: "requiresAnyOf_at h (map fst (entries_at h properties)) = (h1, req)"
    by force
  from b req have b1: "prefix b h1" by (rule prefix_requiresAnyOf_at)
  show ?thesis
  proof (cases "get_at h1 option ''anyOf''")
    case (Inl e)
    with run req b1 show ?thesis by (simp add: augmentedSchema_at_def)
  next
    case (Inr anyOf)
    show ?thesis
    proof (cases "truthy_val anyOf")
      case False
      obtain h2 target
        where a: "alloc h1 (Object [(''definitions'', definitions)]) = (h2, target)"
        by force
      from b1 a have b2: "prefix b h2" by (rule prefix_alloc)
      from a b1 have fresh: "length b \<le> target"
        by (auto dest: alloc_fresh prefix_length)
      have "prefix b (delete_at (assign_at (assign_at h2 target option)
              target req) target ''required'')"
        by (intro prefix_delete_at prefix_assign_at b2 fresh)
      with run req Inr False a show ?thesis by (simp add: augmentedSchema_at_def)
    next
      case True
      obtain h2 shallowClone
        where c: "alloc h1 (Object (entries_at h1 option)) = (h2, shallowClone)" by force
      from b1 c have b2: "prefix b h2" by (rule prefix_alloc)
      from c b1 have fresh: "length b \<le> shallowClone"
        by (auto dest: alloc_fresh prefix_length)
      from c have clone: "cell_at h2 shallowClone = Some (Object (entries_at h1 option))"
        by (rule alloc_cell)
      show ?thesis
      proof (cases "get_at h2 (VRef shallowClone) ''allOf''")
        case (Inl e)
        with run req Inr True c b2 show ?thesis by (simp add: augmentedSchema_at_def)
      next
        case allOf: (Inr allOf)
        let ?new = "if \<not> truthy_val allOf
                    then (let (h3, empty) = alloc h2 (Array []) in Inr (h3, VRef empty))
                    else slice_at h2 allOf"
        show ?thesis
        proof (cases ?new)
          case (Inl e)
          with run req Inr True c allOf b2 show ?thesis by (simp add: augmentedSchema_at_def)
        next
          case new: (Inr pair)
          obtain h3 replacement where pair: "pair = (h3, replacement)" by force
          from new pair b2 have b3: "prefix b h3"
            by (auto simp: Let_def split: if_splits prod.splits
                     dest: prefix_alloc prefix_slice_at)
          from new pair have len3: "length h2 \<le> length h3"
            by (auto simp: Let_def split: if_splits prod.splits
                     dest: alloc_fresh slice_at_length)
          from new pair have repl: "\<forall>a. replacement = VRef a \<longrightarrow> length h2 \<le> a"
            by (auto simp: Let_def split: if_splits prod.splits
                     dest: alloc_fresh slice_at_fresh)
          from new pair clone have clone3: "cell_at h3 shallowClone = Some (Object (entries_at h1 option))"
            by (auto simp: Let_def alloc_def slice_at_def cell_at_def nth_append
                     split: if_splits prod.splits val.splits option.splits cell.splits)
          let ?h4 = "set_at h3 shallowClone ''allOf'' replacement"
          have b4: "prefix b ?h4" using b3 fresh by (rule prefix_set_at)
          have target: "get_at ?h4 (VRef shallowClone) ''allOf'' = Inr replacement"
            using clone3 by (rule get_set_at)
          show ?thesis
          proof (cases "push_at ?h4 replacement req")
            case (Inl e)
            with run req Inr True c allOf new pair target b4 show ?thesis
              by (simp add: augmentedSchema_at_def)
          next
            case h5: (Inr h5)
            then obtain a where a: "replacement = VRef a" by (auto dest: push_at_ref)
            with repl b2 have "length b \<le> a" by (auto dest: prefix_length)
            with b4 h5 a have "prefix b h5" by (auto intro: prefix_push_at)
            then have "prefix b (delete_at h5 shallowClone ''required'')"
              using fresh by (rule prefix_delete_at)
            with run req Inr True c allOf new pair target h5 show ?thesis
              by (simp add: augmentedSchema_at_def)
          qed
        qed
      qed
    qed
  qed
qed

lemma prefix_matchSchema_at:
  assumes "prefix b h" and "matchSchema_at h definitions option = (h', r)"
  shows "prefix b h'"
  using assms
  by (auto simp: matchSchema_at_def Let_def
           split: sum.splits if_splits prod.splits
           dest: prefix_augmentedSchema_at prefix_alloc)


lemma cell_at_prefix: "prefix h h' \<Longrightarrow> cell_at h a = Some c \<Longrightarrow> cell_at h' a = Some c"
  by (auto simp: prefix_def cell_at_def nth_append split: if_splits)

text \<open>
  The loop ends: a round leaves the array of the options as it was.
\<close>

termination matchFrom_at
proof (relation "measure (\<lambda>(isValid, h, formData, options, definitions, i).
         (case cell_at h options of Some (Array elements) \<Rightarrow> length elements | _ \<Rightarrow> 0) - i)",
       goal_cases)
  case 1
  show ?case by simp
next
  case (2 isValid h formData options definitions i cell elements h1 result schema)
  have "prefix h h1"
    using prefix_matchSchema_at [of h h definitions "elements ! i" h1 result] 2 by simp
  with 2 have "cell_at h1 options = Some (Array elements)"
    by (auto intro: cell_at_prefix)
  with 2 show ?case by simp
qed

declare matchFrom_at.simps [simp del]

lemma prefix_matchFrom_at:
  "prefix b h \<Longrightarrow> matchFrom_at isValid h formData options definitions i = (h', r) \<Longrightarrow> prefix b h'"
proof (induction isValid h formData options definitions i rule: matchFrom_at.induct)
  case (1 isValid h formData options definitions i)
  show ?case
  proof (cases "cell_at h options")
    case None
    with "1.prems" show ?thesis by (simp add: matchFrom_at.simps [of isValid h formData options definitions i])
  next
    case (Some cell)
    show ?thesis
    proof (cases cell)
      case (Object kvs)
      with Some "1.prems" show ?thesis by (simp add: matchFrom_at.simps [of isValid h formData options definitions i])
    next
      case (Array elements)
      show ?thesis
      proof (cases "i < length elements")
        case False
        with Some Array "1.prems" show ?thesis by (simp add: matchFrom_at.simps [of isValid h formData options definitions i])
      next
        case True
        obtain h1 result where run: "matchSchema_at h definitions (elements ! i) = (h1, result)"
          by force
        from "1.prems"(1) run have b1: "prefix b h1" by (rule prefix_matchSchema_at)
        show ?thesis
        proof (cases result)
          case (Inl e)
          with Some Array True run "1.prems"(2) b1 show ?thesis
            by (simp add: matchFrom_at.simps [of isValid h formData options definitions i])
        next
          case (Inr schema)
          show ?thesis
          proof (cases "isValid h1 schema formData")
            case valid: True
            with Some Array True run Inr "1.prems"(2) b1 show ?thesis
              by (simp add: matchFrom_at.simps [of isValid h formData options definitions i])
          next
            case invalid: False
            with Some Array True run Inr "1.prems"(2)
            have "matchFrom_at isValid h1 formData options definitions (i + 1) = (h', r)"
              by (simp add: matchFrom_at.simps [of isValid h formData options definitions i])
            with "1.IH" [OF Some Array True run [symmetric] Inr invalid b1]
            show ?thesis by simp
          qed
        qed
      qed
    qed
  qed
qed

lemmas store_defs =
  getMatchingOption_at_def cell_at_def matchSchema_at_def augmentedSchema_at_def
  requiresAnyOf_at_def alloc_def Let_def set_at_def delete_at_def assign_at_def push_at_def
  slice_at_def

text \<open>
  Claim C8. Whatever \<open>getMatchingOption\<close> returns or throws, the store after the call is
  the store before it followed by the cells the call has allocated: every cell that
  existed before the call, so every branch schema with its nested collections, its
  \<open>required\<close> and its \<open>allOf\<close>, the form data and the definitions, is unchanged.
\<close>

theorem getMatchingOption_frame:
  assumes "getMatchingOption_at isValid h formData options definitions = (h', r)"
  shows "\<exists>allocated. h' = h @ allocated"
proof -
  have "prefix h h'"
    using prefix_matchFrom_at [of h h] assms by (simp add: getMatchingOption_at_def)
  then show ?thesis by (simp add: prefix_def)
qed

text \<open>
  On a branch with \<open>anyOf\<close>, \<open>allOf\<close> and \<open>required\<close> and a validator that rejects,
  six cells are allocated: the clone at 14 has lost \<open>required\<close> and holds the new
  \<open>allOf\<close> array at 15, while the branch at 6 and its \<open>allOf\<close> array at 5 are as
  before.
\<close>

theorem getMatchingOption_frame_witness:
  "getMatchingOption_at (\<lambda>h schema data. False) unionStore (VRef 9) 7 (VRef 8) =
     (unionStore @
        [Array [VStr ''a''], Object [(''required'', VRef 10)], Array [VRef 11],
         Object [(''anyOf'', VRef 12)],
         Object [(''properties'', VRef 1), (''anyOf'', VRef 4), (''allOf'', VRef 15)],
         Array [VRef 3, VRef 13]],
      Inr 0)"
  using getMatchingOption_frame [of "\<lambda>h schema data. False" unionStore "VRef 9" 7 "VRef 8"]
  by (simp add: matchFrom_at.simps unionStore_def store_defs enumerable_keys_def)

section \<open>The store model and the value model agree\<close>

lemma repr_prefix: "repr h v j \<Longrightarrow> prefix h h' \<Longrightarrow> repr h' v j"
proof (induction rule: repr.induct)
  case (obj a kvs jkvs)
  from obj.hyps(1) obj.prems have "cell_at h' a = Some (Object kvs)"
    by (auto intro: cell_at_prefix)
  moreover from obj.IH obj.prems have "repr_entries h' kvs jkvs"
    by (auto elim!: list_all2_mono)
  ultimately show ?case by (rule repr.obj)
next
  case (arr a xs js)
  from arr.hyps(1) arr.prems have "cell_at h' a = Some (Array xs)"
    by (auto intro: cell_at_prefix)
  moreover from arr.IH arr.prems have "list_all2 (repr h') xs js"
    by (auto elim!: list_all2_mono)
  ultimately show ?case by (rule repr.arr)
qed (auto intro: repr.intros)

lemma repr_entries_prefix: "repr_entries h kvs jkvs \<Longrightarrow> prefix h h' \<Longrightarrow> repr_entries h' kvs jkvs"
  by (auto elim!: list_all2_mono intro: repr_prefix)

lemma repr_list_prefix: "list_all2 (repr h) xs js \<Longrightarrow> prefix h h' \<Longrightarrow> list_all2 (repr h') xs js"
  by (auto elim!: list_all2_mono intro: repr_prefix)

lemma repr_truthy: "repr h v j \<Longrightarrow> truthy_val v = truthy j"
  by (induction rule: repr.induct) auto

lemma repr_entries_zip:
  "list_all2 (repr h) xs js \<Longrightarrow> length ks = length xs \<Longrightarrow> repr_entries h (zip ks xs) (zip ks js)"
proof (induction xs js arbitrary: ks rule: list_all2_induct)
  case Nil
  then show ?case by simp
next
  case (Cons x xs j js)
  then show ?case by (cases ks) auto
qed

lemma repr_entries: "repr h v j \<Longrightarrow> repr_entries h (entries_at h v) (entries j)"
proof (induction rule: repr.induct)
  case (obj a kvs jkvs)
  then show ?case by (auto elim!: list_all2_mono)
next
  case (arr a xs js)
  from arr.IH have "list_all2 (repr h) xs js" by (auto elim!: list_all2_mono)
  moreover then have "length xs = length js" by (rule list_all2_lengthD)
  ultimately show ?case using arr.hyps(1)
    by (simp add: repr_entries_zip index_keys_def)
next
  case (str s)
  have "list_all2 (repr h) (map (\<lambda>c. VStr [c]) s) (map (\<lambda>c. JStr [c]) s)"
    by (induction s) (auto intro: repr.intros)
  then show ?case by (simp add: repr_entries_zip index_keys_def)
qed simp_all

lemma repr_keys: "repr_entries h kvs jkvs \<Longrightarrow> map fst kvs = map fst jkvs"
  by (induction kvs jkvs rule: list_all2_induct) auto

lemma repr_map_of:
  "repr_entries h kvs jkvs \<Longrightarrow> rel_option (repr h) (map_of kvs k) (map_of jkvs k)"
  by (induction kvs jkvs rule: list_all2_induct) auto

lemma repr_lookup:
  "repr_entries h kvs jkvs \<Longrightarrow>
     repr h (case map_of kvs k of None \<Rightarrow> VUndefined | Some v \<Rightarrow> v)
            (case map_of jkvs k of None \<Rightarrow> JUndefined | Some v \<Rightarrow> v)"
  using repr_map_of [of h kvs jkvs k]
  by (auto simp: option_rel_Some1 option_rel_Some2 intro: repr.intros split: option.splits)

lemma repr_get: "repr h v j \<Longrightarrow> rel_sum (=) (repr h) (get_at h v k) (js_get j k)"
proof (induction rule: repr.induct)
  case (obj a kvs jkvs)
  then have "repr_entries h kvs jkvs" by (auto elim!: list_all2_mono)
  with obj.hyps(1) show ?case by (simp add: repr_lookup)
qed (auto intro: repr.intros)

lemma repr_update:
  "repr_entries h kvs jkvs \<Longrightarrow> repr h v j \<Longrightarrow>
     repr_entries h (AList.update k v kvs) (AList.update k j jkvs)"
  by (induction kvs jkvs rule: list_all2_induct) auto

lemma repr_delete:
  "repr_entries h kvs jkvs \<Longrightarrow> repr_entries h (AList.delete k kvs) (AList.delete k jkvs)"
  by (induction kvs jkvs rule: list_all2_induct) auto

lemma repr_fold_update:
  "repr_entries h es jes \<Longrightarrow> repr_entries h kvs jkvs \<Longrightarrow>
     repr_entries h (fold (\<lambda>(k, v). AList.update k v) es kvs)
                    (fold (\<lambda>(k, v). AList.update k v) jes jkvs)"
proof (induction es jes arbitrary: kvs jkvs rule: list_all2_induct)
  case Nil
  then show ?case by simp
next
  case (Cons e es je jes)
  then show ?case by (cases e; cases je) (auto intro: repr_update)
qed

lemma cell_at_update:
  "cell_at (h[a := c]) a' = (if a' = a \<and> a < length h then Some c else cell_at h a')"
  by (auto simp: cell_at_def)

lemma cell_at_length: "cell_at h a = Some c \<Longrightarrow> a < length h"
  by (auto simp: cell_at_def split: if_splits)

lemma set_at_cell:
  "cell_at h a = Some (Object kvs) \<Longrightarrow>
     cell_at (set_at h a k v) a' =
       (if a' = a then Some (Object (AList.update k v kvs)) else cell_at h a')"
  by (auto simp: set_at_def cell_at_update dest: cell_at_length)

lemma delete_at_cell:
  "cell_at h a = Some (Object kvs) \<Longrightarrow>
     cell_at (delete_at h a k) a' =
       (if a' = a then Some (Object (AList.delete k kvs)) else cell_at h a')"
  by (auto simp: delete_at_def cell_at_update dest: cell_at_length)

lemma push_at_cell:
  "push_at h v x = Inr h' \<Longrightarrow>
     \<exists>a xs. v = VRef a \<and> cell_at h a = Some (Array xs) \<and> h' = h[a := Array (xs @ [x])]"
  by (auto simp: push_at_def split: val.splits option.splits cell.splits)

lemma fold_set_at_cell:
  "cell_at h a = Some (Object kvs) \<Longrightarrow>
     cell_at (fold (\<lambda>(k, v) h'. set_at h' a k v) es h) a' =
       (if a' = a then Some (Object (fold (\<lambda>(k, v). AList.update k v) es kvs)) else cell_at h a')"
proof (induction es arbitrary: h kvs)
  case Nil
  then show ?case by simp
next
  case (Cons e es)
  obtain k v where e: "e = (k, v)" by force
  from Cons.prems have "cell_at (set_at h a k v) a = Some (Object (AList.update k v kvs))"
    by (simp add: set_at_cell)
  from Cons.IH [OF this] Cons.prems e show ?case by (simp add: set_at_cell)
qed

lemma assign_at_cell:
  "cell_at h a = Some (Object kvs) \<Longrightarrow>
     cell_at (assign_at h a source) a' =
       (if a' = a then Some (Object (fold (\<lambda>(k, v). AList.update k v) (entries_at h source) kvs))
        else cell_at h a')"
  by (simp add: assign_at_def fold_set_at_cell)

lemma alloc_prefix: "alloc h c = (h', a) \<Longrightarrow> prefix h h'"
  by (auto simp: alloc_def)

lemma required_at_repr:
  "required_at h keys = (h', vs) \<Longrightarrow>
     prefix h h' \<and>
     list_all2 (repr h') vs (map (\<lambda>key. JObj [(''required'', JArr [JStr key])]) keys)"
proof (induction keys arbitrary: h h' vs)
  case Nil
  then show ?case by simp
next
  case (Cons key keys)
  obtain h1 names where a1: "alloc h (Array [VStr key]) = (h1, names)" by force
  obtain h2 entry where a2: "alloc h1 (Object [(''required'', VRef names)]) = (h2, entry)" by force
  obtain h3 rest where r: "required_at h2 keys = (h3, rest)" by force
  from Cons.prems a1 a2 r have res: "h' = h3" "vs = VRef entry # rest" by simp_all
  from Cons.IH [OF r] have p23: "prefix h2 h3"
    and rest: "list_all2 (repr h3) rest (map (\<lambda>key. JObj [(''required'', JArr [JStr key])]) keys)"
    by simp_all
  from a1 have p01: "prefix h h1" by (rule alloc_prefix)
  from a2 have p12: "prefix h1 h2" by (rule alloc_prefix)
  from a1 have "cell_at h1 names = Some (Array [VStr key])" by (rule alloc_cell)
  with p12 have "cell_at h2 names = Some (Array [VStr key])" by (auto intro: cell_at_prefix)
  then have "repr h2 (VRef names) (JArr [JStr key])"
    by (rule repr.arr) (simp add: repr.str)
  moreover from a2 have "cell_at h2 entry = Some (Object [(''required'', VRef names)])"
    by (rule alloc_cell)
  ultimately have "repr h2 (VRef entry) (JObj [(''required'', JArr [JStr key])])"
    by (auto intro: repr.obj)
  then have "repr h3 (VRef entry) (JObj [(''required'', JArr [JStr key])])"
    using p23 by (rule repr_prefix)
  with rest res p01 p12 p23 show ?case by (auto dest: prefix_order.trans)
qed

lemma requiresAnyOf_at_repr:
  assumes "requiresAnyOf_at h keys = (h', r)"
  shows "repr h' r (requiresAnyOf keys)"
proof -
  obtain h1 alternatives where a: "required_at h keys = (h1, alternatives)" by force
  obtain h2 list where l: "alloc h1 (Array alternatives) = (h2, list)" by force
  obtain h3 obj where ob: "alloc h2 (Object [(''anyOf'', VRef list)]) = (h3, obj)" by force
  from assms a l ob have res: "h' = h3" "r = VRef obj"
    by (simp_all add: requiresAnyOf_at_def)
  from required_at_repr [OF a]
  have alts: "list_all2 (repr h1) alternatives
                (map (\<lambda>key. JObj [(''required'', JArr [JStr key])]) keys)" by simp
  from l have p12: "prefix h1 h2" by (rule alloc_prefix)
  from l have "cell_at h2 list = Some (Array alternatives)" by (rule alloc_cell)
  moreover from alts p12 have "list_all2 (repr h2) alternatives
                (map (\<lambda>key. JObj [(''required'', JArr [JStr key])]) keys)"
    by (rule repr_list_prefix)
  ultimately have "repr h2 (VRef list)
      (JArr (map (\<lambda>key. JObj [(''required'', JArr [JStr key])]) keys))"
    by (rule repr.arr)
  moreover from ob have "prefix h2 h3" by (rule alloc_prefix)
  ultimately have "repr h3 (VRef list)
      (JArr (map (\<lambda>key. JObj [(''required'', JArr [JStr key])]) keys))"
    by (rule repr_prefix)
  moreover from ob have "cell_at h3 obj = Some (Object [(''anyOf'', VRef list)])"
    by (rule alloc_cell)
  ultimately show ?thesis using res
    by (auto simp: requiresAnyOf_def intro: repr.obj)
qed


lemma entries_at_prefix: "repr h v j \<Longrightarrow> prefix h h' \<Longrightarrow> entries_at h' v = entries_at h v"
  by (induction rule: repr.induct) (auto dest: cell_at_prefix)

lemma rel_sum_Inl: "rel_sum (=) R (Inl e) y \<Longrightarrow> y = Inl e"
  by (cases y) auto

lemma rel_sum_Inr: "rel_sum (=) R (Inr x) y \<Longrightarrow> \<exists>x'. y = Inr x' \<and> R x x'"
  by (cases y) auto

lemma augmentedSchema_assign_refines:
  assumes d1: "repr h1 definitions jdefs" and o1: "repr h1 option jopt"
    and rq: "repr h1 req jreq"
    and a: "alloc h1 (Object [(''definitions'', definitions)]) = (h2, target)"
  shows "repr (delete_at (assign_at (assign_at h2 target option)
                  target req) target ''required'')
           (VRef target)
           (JObj (AList.delete ''required'' (assign (assign [(''definitions'', jdefs)] jopt) jreq)))"
proof -
  let ?h3 = "assign_at h2 target option"
  let ?h4 = "assign_at ?h3 target req"
  let ?h5 = "delete_at ?h4 target ''required''"
  from a have fresh: "length h1 \<le> target" by (auto dest: alloc_fresh)
  from a have p12: "prefix h1 h2" by (rule alloc_prefix)
  then have p13: "prefix h1 ?h3" using fresh by (rule prefix_assign_at)
  then have p14: "prefix h1 ?h4" using fresh by (rule prefix_assign_at)
  then have p15: "prefix h1 ?h5" using fresh by (rule prefix_delete_at)
  let ?es = "entries_at h1 option" and ?rs = "entries_at h1 req"
  have e2: "entries_at h2 option = ?es" using o1 p12 by (rule entries_at_prefix)
  have e3: "entries_at ?h3 req = ?rs" using rq p13 by (rule entries_at_prefix)
  from a have c2: "cell_at h2 target = Some (Object [(''definitions'', definitions)])"
    by (rule alloc_cell)
  let ?kvs3 = "fold (\<lambda>(k, v). AList.update k v) ?es [(''definitions'', definitions)]"
  from c2 have c3: "cell_at ?h3 target = Some (Object ?kvs3)"
    by (simp add: assign_at_cell e2)
  let ?kvs4 = "fold (\<lambda>(k, v). AList.update k v) ?rs ?kvs3"
  from c3 have c4: "cell_at ?h4 target = Some (Object ?kvs4)"
    by (simp add: assign_at_cell e3)
  then have c5: "cell_at ?h5 target = Some (Object (AList.delete ''required'' ?kvs4))"
    by (simp add: delete_at_cell)
  have "repr_entries ?h5 ?es (entries jopt)"
    using repr_entries [OF o1] p15 by (rule repr_entries_prefix)
  moreover have "repr_entries ?h5 [(''definitions'', definitions)] [(''definitions'', jdefs)]"
    using repr_prefix [OF d1 p15] by simp
  ultimately have "repr_entries ?h5 ?kvs3
       (fold (\<lambda>(k, v). AList.update k v) (entries jopt) [(''definitions'', jdefs)])"
    by (rule repr_fold_update)
  moreover have "repr_entries ?h5 ?rs (entries jreq)"
    using repr_entries [OF rq] p15 by (rule repr_entries_prefix)
  ultimately have "repr_entries ?h5 ?kvs4 (assign (assign [(''definitions'', jdefs)] jopt) jreq)"
    unfolding assign_def by (rule repr_fold_update [rotated])
  then have "repr_entries ?h5 (AList.delete ''required'' ?kvs4)
       (AList.delete ''required'' (assign (assign [(''definitions'', jdefs)] jopt) jreq))"
    by (rule repr_delete)
  with c5 show ?thesis by (rule repr.obj)
qed


lemma repr_array_cell:
  "repr h (VRef a) j \<Longrightarrow> cell_at h a = Some (Array xs) \<Longrightarrow>
     \<exists>js. j = JArr js \<and> list_all2 (repr h) xs js"
  by (cases rule: repr.cases) auto

lemma repr_JArr:
  "repr h v (JArr js) \<Longrightarrow> \<exists>a xs. v = VRef a \<and> cell_at h a = Some (Array xs)"
  by (cases rule: repr.cases) auto

lemma repr_VStr: "repr h (VStr s) j \<Longrightarrow> j = JStr s"
  by (cases rule: repr.cases) auto

lemma slice_at_cases:
  "slice_at h v = Inr (h', r) \<Longrightarrow>
     (\<exists>s. v = VStr s \<and> r = VStr s \<and> h' = h) \<or>
     (\<exists>a xs. v = VRef a \<and> cell_at h a = Some (Array xs) \<and> alloc h (Array xs) = (h', length h)
         \<and> r = VRef (length h))"
  by (auto simp: slice_at_def alloc_def split: val.splits option.splits cell.splits)

lemma slice_at_error:
  "slice_at h v = Inl e \<Longrightarrow> e = TypeError \<and> (\<forall>a xs. v = VRef a \<longrightarrow> cell_at h a \<noteq> Some (Array xs))"
  by (auto simp: slice_at_def alloc_def split: val.splits option.splits cell.splits)

lemma augmentedSchema_clone_refines:
  assumes o1: "repr h1 option jopt" and rq: "repr h1 req jreq"
    and c: "alloc h1 (Object (entries_at h1 option)) = (h2, shallowClone)"
    and n: "alloc h2 (Array xs) = (h3, replacement)"
    and xs: "list_all2 (repr h1) xs jxs"
  shows "\<exists>h5. push_at (set_at h3 shallowClone ''allOf'' (VRef replacement)) (VRef replacement)
                  req = Inr h5
           \<and> repr (delete_at h5 shallowClone ''required'') (VRef shallowClone)
                 (JObj (AList.delete ''required''
                    (AList.update ''allOf'' (JArr (jxs @ [jreq])) (entries jopt))))"
proof -
  let ?es = "entries_at h1 option"
  let ?h4 = "set_at h3 shallowClone ''allOf'' (VRef replacement)"
  let ?h5 = "?h4[replacement := Array (xs @ [req])]"
  let ?h6 = "delete_at ?h5 shallowClone ''required''"
  from c have clone: "shallowClone = length h1" "length h2 = Suc (length h1)"
    by (auto dest: alloc_fresh)
  from n have new: "replacement = length h2" "length h3 = Suc (length h2)"
    by (auto dest: alloc_fresh)
  from clone new have ne: "replacement \<noteq> shallowClone" by simp
  from c have p12: "prefix h1 h2" by (rule alloc_prefix)
  from n have p23: "prefix h2 h3" by (rule alloc_prefix)
  from p12 p23 have p13: "prefix h1 h3" by (rule prefix_order.trans)
  then have p14: "prefix h1 ?h4" using clone by (simp add: prefix_set_at)
  then have p15: "prefix h1 ?h5" using clone new by (simp add: prefix_update)
  then have p16: "prefix h1 ?h6" using clone by (simp add: prefix_delete_at)
  from c have "cell_at h2 shallowClone = Some (Object ?es)" by (rule alloc_cell)
  with p23 have c3: "cell_at h3 shallowClone = Some (Object ?es)" by (auto intro: cell_at_prefix)
  from n have r3: "cell_at h3 replacement = Some (Array xs)" by (rule alloc_cell)
  from c3 r3 ne have c4: "cell_at ?h4 shallowClone
        = Some (Object (AList.update ''allOf'' (VRef replacement) ?es))"
    and r4: "cell_at ?h4 replacement = Some (Array xs)"
    by (simp_all add: set_at_cell)
  from r4 have push: "push_at ?h4 (VRef replacement) req = Inr ?h5"
    by (simp add: push_at_def)
  from c4 r4 ne have c5: "cell_at ?h5 shallowClone
        = Some (Object (AList.update ''allOf'' (VRef replacement) ?es))"
    and r5: "cell_at ?h5 replacement = Some (Array (xs @ [req]))"
    by (auto simp: cell_at_update dest: cell_at_length)
  from c5 r5 ne have c6: "cell_at ?h6 shallowClone
        = Some (Object (AList.delete ''required''
             (AList.update ''allOf'' (VRef replacement) ?es)))"
    and r6: "cell_at ?h6 replacement = Some (Array (xs @ [req]))"
    by (simp_all add: delete_at_cell)
  have "list_all2 (repr ?h6) xs jxs" using xs p16 by (rule repr_list_prefix)
  moreover have "repr ?h6 req jreq" using rq p16 by (rule repr_prefix)
  ultimately have "list_all2 (repr ?h6) (xs @ [req]) (jxs @ [jreq])"
    by (simp add: list_all2_appendI)
  with r6 have arr: "repr ?h6 (VRef replacement) (JArr (jxs @ [jreq]))" by (rule repr.arr)
  have "repr_entries ?h6 ?es (entries jopt)"
    using repr_entries [OF o1] p16 by (rule repr_entries_prefix)
  then have "repr_entries ?h6 (AList.update ''allOf'' (VRef replacement) ?es)
       (AList.update ''allOf'' (JArr (jxs @ [jreq])) (entries jopt))"
    using arr by (rule repr_update)
  then have "repr_entries ?h6
       (AList.delete ''required'' (AList.update ''allOf'' (VRef replacement) ?es))
       (AList.delete ''required'' (AList.update ''allOf'' (JArr (jxs @ [jreq])) (entries jopt)))"
    by (rule repr_delete)
  with c6 have "repr ?h6 (VRef shallowClone) (JObj (AList.delete ''required''
       (AList.update ''allOf'' (JArr (jxs @ [jreq])) (entries jopt))))"
    by (rule repr.obj)
  with push show ?thesis by blast
qed

lemma augmentedSchema_refines:
  assumes d: "repr h definitions jdefs" and o: "repr h option jopt"
    and p: "repr h properties jprops" and t: "truthy_val properties"
    and run: "augmentedSchema_at h definitions option properties = (h', r)"
  shows "rel_sum (=) (repr h') r (augmentedSchema jdefs jopt jprops)"
proof -
  let ?keys = "map fst (entries_at h properties)"
  from t p have "truthy jprops" by (simp add: repr_truthy)
  then have keys: "Object_keys jprops = Inr ?keys"
    using repr_keys [OF repr_entries [OF p]]
    by (simp add: Object_keys_truthy enumerable_keys_def)
  obtain h1 requiresAnyOf' where req: "requiresAnyOf_at h ?keys = (h1, requiresAnyOf')"
    by force
  have p01: "prefix h h1" using prefix_requiresAnyOf_at [of h h, OF _ req] by simp
  have rq: "repr h1 requiresAnyOf' (requiresAnyOf ?keys)"
    using req by (rule requiresAnyOf_at_repr)
  have d1: "repr h1 definitions jdefs" using d p01 by (rule repr_prefix)
  have o1: "repr h1 option jopt" using o p01 by (rule repr_prefix)
  have g: "rel_sum (=) (repr h1) (get_at h1 option ''anyOf'') (js_get jopt ''anyOf'')"
    using o1 by (rule repr_get)
  show ?thesis
  proof (cases "get_at h1 option ''anyOf''")
    case (Inl e)
    from Inl g have "js_get jopt ''anyOf'' = Inl e" by (auto dest: rel_sum_Inl)
    moreover from run req Inl have "r = Inl e" by (auto simp: augmentedSchema_at_def)
    ultimately show ?thesis using keys by (simp add: augmentedSchema_def)
  next
    case (Inr anyOf)
    with g obtain janyOf where j: "js_get jopt ''anyOf'' = Inr janyOf"
      and ra: "repr h1 anyOf janyOf" by (auto dest: rel_sum_Inr)
    show ?thesis
    proof (cases "truthy_val anyOf")
      case False
      with ra have nt: "\<not> truthy janyOf" by (simp add: repr_truthy)
      obtain h2 target
        where a: "alloc h1 (Object [(''definitions'', definitions)]) = (h2, target)"
        by force
      from run req Inr False a
      have "h' = delete_at (assign_at (assign_at h2 target option) target requiresAnyOf')
                    target ''required''" "r = Inr (VRef target)"
        by (simp_all add: augmentedSchema_at_def)
      with augmentedSchema_assign_refines [OF d1 o1 rq a] keys j nt show ?thesis
        by (simp add: augmentedSchema_def)
    next
      case True
      with ra have tj: "truthy janyOf" by (simp add: repr_truthy)
      obtain h2 shallowClone
        where c: "alloc h1 (Object (entries_at h1 option)) = (h2, shallowClone)" by force
      from c have p12: "prefix h1 h2" by (rule alloc_prefix)
      from c have clone: "cell_at h2 shallowClone = Some (Object (entries_at h1 option))"
        by (rule alloc_cell)
      let ?allOf = "case map_of (entries_at h1 option) ''allOf'' of
                      None \<Rightarrow> VUndefined | Some v \<Rightarrow> v"
      let ?jallOf = "case map_of (entries jopt) ''allOf'' of
                      None \<Rightarrow> JUndefined | Some v \<Rightarrow> v"
      from clone have ga: "get_at h2 (VRef shallowClone) ''allOf'' = Inr ?allOf" by simp
      have rall: "repr h1 ?allOf ?jallOf"
        using repr_entries [OF o1] by (rule repr_lookup)
      have jga: "js_get (JObj (entries jopt)) ''allOf'' = Inr ?jallOf" by simp
      have pure: "augmentedSchema jdefs jopt jprops =
        (if \<not> truthy ?jallOf then
           Inr (JObj (AList.delete ''required''
             (AList.update ''allOf'' (JArr ([] @ [requiresAnyOf ?keys])) (entries jopt))))
         else (case ?jallOf of
                 JArr xs \<Rightarrow> Inr (JObj (AList.delete ''required''
                   (AList.update ''allOf'' (JArr (xs @ [requiresAnyOf ?keys])) (entries jopt))))
               | _ \<Rightarrow> Inl TypeError))"
        using keys j tj by (simp add: augmentedSchema_def Let_def)
      show ?thesis
      proof (cases "truthy_val ?allOf")
        case nall: False
        with rall have njall: "\<not> truthy ?jallOf" by (simp add: repr_truthy)
        obtain h3 empty where e: "alloc h2 (Array []) = (h3, empty)" by force
        from augmentedSchema_clone_refines [OF o1 rq c e, of "[]"]
        obtain h5 where push: "push_at (set_at h3 shallowClone ''allOf'' (VRef empty)) (VRef empty)
                  requiresAnyOf' = Inr h5"
          and rep: "repr (delete_at h5 shallowClone ''required'') (VRef shallowClone)
                 (JObj (AList.delete ''required''
                    (AList.update ''allOf'' (JArr ([] @ [requiresAnyOf ?keys])) (entries jopt))))"
          by auto
        from e clone have c3: "cell_at h3 shallowClone = Some (Object (entries_at h1 option))"
          by (auto intro: cell_at_prefix alloc_prefix)
        from run req Inr True c ga nall e push get_set_at [OF c3]
        have "h' = delete_at h5 shallowClone ''required''" "r = Inr (VRef shallowClone)"
          by (simp_all add: augmentedSchema_at_def)
        with rep pure njall show ?thesis by simp
      next
        case yall: True
        with rall have tjall: "truthy ?jallOf" by (simp add: repr_truthy)
        show ?thesis
        proof (cases "slice_at h2 ?allOf")
          case (Inl e)
          from slice_at_error [OF Inl]
          have e: "e = TypeError"
            and na: "\<forall>a xs. ?allOf = VRef a \<longrightarrow> cell_at h2 a \<noteq> Some (Array xs)" by simp_all
          have "\<forall>js. ?jallOf \<noteq> JArr js"
          proof (intro allI notI)
            fix js assume "?jallOf = JArr js"
            with rall obtain a xs where "?allOf = VRef a" "cell_at h1 a = Some (Array xs)"
              by (auto dest: repr_JArr)
            with p12 na show False by (auto dest: cell_at_prefix)
          qed
          then have "augmentedSchema jdefs jopt jprops = Inl TypeError"
            using pure tjall by (auto split: json.splits)
          moreover from run req Inr True c ga yall Inl e have "r = Inl TypeError"
            by (simp add: augmentedSchema_at_def)
          ultimately show ?thesis by simp
        next
          case sl: (Inr pair)
          obtain h3 replacement where pair: "pair = (h3, replacement)" by force
          from slice_at_cases [OF sl [unfolded pair]]
          show ?thesis
          proof (elim disjE exE conjE)
            fix s
            assume s: "?allOf = VStr s" "replacement = VStr s" "h3 = h2"
            with rall have "?jallOf = JStr s" by (auto dest: repr_VStr)
            with pure tjall have "augmentedSchema jdefs jopt jprops = Inl TypeError" by simp
            moreover from run req Inr True c ga yall sl pair s get_set_at [OF clone]
            have "r = Inl TypeError"
              by (simp add: augmentedSchema_at_def push_at_def)
            ultimately show ?thesis by simp
          next
            fix a xs
            assume a: "?allOf = VRef a" "cell_at h2 a = Some (Array xs)"
              "alloc h2 (Array xs) = (h3, length h2)" "replacement = VRef (length h2)"
            from rall a(1) have ra1: "repr h1 (VRef a) ?jallOf" by simp
            then have "\<exists>c. cell_at h1 a = Some c" by (cases rule: repr.cases) auto
            with p12 a(2) have "cell_at h1 a = Some (Array xs)" by (auto dest: cell_at_prefix)
            with ra1 obtain jxs where jxs: "?jallOf = JArr jxs" "list_all2 (repr h1) xs jxs"
              by (auto dest: repr_array_cell)
            from augmentedSchema_clone_refines [OF o1 rq c a(3) jxs(2)]
            obtain h5 where push: "push_at (set_at h3 shallowClone ''allOf'' (VRef (length h2)))
                  (VRef (length h2)) requiresAnyOf' = Inr h5"
              and rep: "repr (delete_at h5 shallowClone ''required'') (VRef shallowClone)
                 (JObj (AList.delete ''required''
                    (AList.update ''allOf'' (JArr (jxs @ [requiresAnyOf ?keys])) (entries jopt))))"
              by auto
            from a(3) clone have c3: "cell_at h3 shallowClone = Some (Object (entries_at h1 option))"
              by (auto intro: cell_at_prefix alloc_prefix)
            from run req Inr True c ga yall sl pair a(4) push get_set_at [OF c3]
            have "h' = delete_at h5 shallowClone ''required''" "r = Inr (VRef shallowClone)"
              by (simp_all add: augmentedSchema_at_def)
            with rep pure tjall jxs(1) show ?thesis by simp
          qed
        qed
      qed
    qed
  qed
qed

lemma matchSchema_refines:
  assumes d: "repr h definitions jdefs" and o: "repr h option jopt"
    and run: "matchSchema_at h definitions option = (h', r)"
  shows "rel_sum (=) (repr h') r (matchSchema jdefs jopt)"
proof -
  have g: "rel_sum (=) (repr h) (get_at h option ''properties'') (js_get jopt ''properties'')"
    using o by (rule repr_get)
  show ?thesis
  proof (cases "get_at h option ''properties''")
    case (Inl e)
    from Inl g have "js_get jopt ''properties'' = Inl e" by (auto dest: rel_sum_Inl)
    moreover from run Inl have "r = Inl e" by (auto simp: matchSchema_at_def)
    ultimately show ?thesis by (simp add: matchSchema_def)
  next
    case (Inr properties)
    with g obtain jprops where j: "js_get jopt ''properties'' = Inr jprops"
      and rp: "repr h properties jprops" by (auto dest: rel_sum_Inr)
    show ?thesis
    proof (cases "truthy_val properties")
      case True
      with rp have "truthy jprops" by (simp add: repr_truthy)
      moreover from run Inr True
      have "augmentedSchema_at h definitions option properties = (h', r)"
        by (simp add: matchSchema_at_def)
      from augmentedSchema_refines [OF d o rp True this]
      have "rel_sum (=) (repr h') r (augmentedSchema jdefs jopt jprops)" .
      ultimately show ?thesis using j by (simp add: matchSchema_def)
    next
      case False
      with rp have nt: "\<not> truthy jprops" by (simp add: repr_truthy)
      let ?kvs = "AList.update ''definitions'' definitions (entries_at h option)"
      obtain h1 schema where a: "alloc h (Object ?kvs) = (h1, schema)" by force
      from a have p01: "prefix h h1" by (rule alloc_prefix)
      from a have c: "cell_at h1 schema = Some (Object ?kvs)" by (rule alloc_cell)
      have "repr_entries h ?kvs (AList.update ''definitions'' jdefs (entries jopt))"
        using repr_entries [OF o] d by (rule repr_update)
      then have "repr_entries h1 ?kvs (AList.update ''definitions'' jdefs (entries jopt))"
        using p01 by (rule repr_entries_prefix)
      with c have "repr h1 (VRef schema)
          (JObj (AList.update ''definitions'' jdefs (entries jopt)))" by (rule repr.obj)
      moreover from run Inr False a have "h' = h1" "r = Inr (VRef schema)"
        by (simp_all add: matchSchema_at_def)
      ultimately show ?thesis using j nt by (simp add: matchSchema_def)
    qed
  qed
qed

lemma matchFrom_refines:
  "structural isValid_at isValid \<Longrightarrow> repr h formData jfd \<Longrightarrow> repr h definitions jdefs \<Longrightarrow>
         cell_at h options = Some (Array elements) \<Longrightarrow> list_all2 (repr h) elements jopts \<Longrightarrow>
         snd (matchFrom_at isValid_at h formData options definitions i)
           = matchFrom isValid jfd jdefs i (drop i jopts)"
proof (induction isValid_at h formData options definitions i rule: matchFrom_at.induct)
  case (1 isValid_at h formData options definitions i)
  note cell = "1.prems"(4) and els = "1.prems"(5)
  from els have len: "length elements = length jopts" by (rule list_all2_lengthD)
  show ?case
  proof (cases "i < length elements")
    case False
    with cell len show ?thesis by (simp add: matchFrom_at.simps [of isValid_at h formData options definitions i])
  next
    case True
    with len have dr: "drop i jopts = jopts ! i # drop (Suc i) jopts"
      by (simp add: Cons_nth_drop_Suc)
    from els True have oi: "repr h (elements ! i) (jopts ! i)" by (rule list_all2_nthD)
    obtain h1 r where run: "matchSchema_at h definitions (elements ! i) = (h1, r)" by force
    have p01: "prefix h h1" using prefix_matchSchema_at [of h h, OF _ run] by simp
    from matchSchema_refines [OF "1.prems"(3) oi run]
    have rel: "rel_sum (=) (repr h1) r (matchSchema jdefs (jopts ! i))" .
    show ?thesis
    proof (cases r)
      case (Inl e)
      with rel have "matchSchema jdefs (jopts ! i) = Inl e" by (auto dest: rel_sum_Inl)
      with cell True run Inl dr show ?thesis by (simp add: matchFrom_at.simps [of isValid_at h formData options definitions i])
    next
      case (Inr schema)
      with rel obtain js where js: "matchSchema jdefs (jopts ! i) = Inr js"
        and rs: "repr h1 schema js" by (auto dest: rel_sum_Inr)
      have fd1: "repr h1 formData jfd" using "1.prems"(2) p01 by (rule repr_prefix)
      from "1.prems"(1) rs fd1 have v: "isValid_at h1 schema formData = isValid js jfd"
        by (simp add: structural_def)
      show ?thesis
      proof (cases "isValid_at h1 schema formData")
        case valid: True
        with cell True run Inr js v dr show ?thesis by (simp add: matchFrom_at.simps [of isValid_at h formData options definitions i])
      next
        case invalid: False
        have d1: "repr h1 definitions jdefs" using "1.prems"(3) p01 by (rule repr_prefix)
        have c1: "cell_at h1 options = Some (Array elements)"
          using p01 cell by (rule cell_at_prefix)
        have e1: "list_all2 (repr h1) elements jopts" using els p01 by (rule repr_list_prefix)
        from "1.IH" [OF cell refl True run [symmetric] Inr invalid "1.prems"(1) fd1 d1 c1 e1]
        have "snd (matchFrom_at isValid_at h1 formData options definitions (i + 1))
                = matchFrom isValid jfd jdefs (i + 1) (drop (i + 1) jopts)" .
        with cell True run Inr invalid js v dr show ?thesis by (simp add: matchFrom_at.simps [of isValid_at h formData options definitions i])
      qed
    qed
  qed
qed

lemma getMatchingOption_refines:
  assumes "structural isValid_at isValid"
    and "repr h formData jfd"
    and "repr h (VRef options) (JArr jopts)"
    and "repr h definitions jdefs"
  shows "snd (getMatchingOption_at isValid_at h formData options definitions)
           = getMatchingOption isValid this jfd jopts jdefs"
proof -
  from assms(3) obtain elements where "cell_at h options = Some (Array elements)"
    "list_all2 (repr h) elements jopts" by (cases rule: repr.cases) auto
  from matchFrom_refines [OF assms(1,2,4) this, of 0] show ?thesis
    by (simp add: getMatchingOption_at_def getMatchingOption_def)
qed

lemma repr_functional: "repr h v j \<Longrightarrow> repr h v j' \<Longrightarrow> j = j'"
proof (induction arbitrary: j' rule: repr.induct)
  case (obj a kvs jkvs)
  from obj.prems obj.hyps obtain jkvs' where j': "j' = JObj jkvs'"
    and e: "repr_entries h kvs jkvs'" by (cases rule: repr.cases) auto
  from obj.IH e have "jkvs = jkvs'"
  proof (induction kvs jkvs arbitrary: jkvs' rule: list_all2_induct)
    case Nil
    then show ?case by simp
  next
    case (Cons kv kvs kj jkvs)
    from Cons.prems obtain kj' rest where r: "jkvs' = kj' # rest"
      "fst kv = fst kj'" "repr h (snd kv) (snd kj')" "repr_entries h kvs rest"
      by (cases jkvs') auto
    from Cons.hyps(1) r(2,3) have "kj = kj'" by (auto simp: prod_eq_iff)
    moreover from Cons.IH [OF r(4)] have "jkvs = rest" .
    ultimately show ?case using r(1) by simp
  qed
  with j' show ?case by simp
next
  case (arr a xs js)
  from arr.prems arr.hyps obtain js' where j': "j' = JArr js'"
    and e: "list_all2 (repr h) xs js'" by (cases rule: repr.cases) auto
  from arr.IH e have "js = js'"
  proof (induction xs js arbitrary: js' rule: list_all2_induct)
    case Nil
    then show ?case by simp
  next
    case (Cons x xs j js)
    from Cons.prems obtain j'' rest where r: "js' = j'' # rest"
      "repr h x j''" "list_all2 (repr h) xs rest"
      by (cases js') auto
    from Cons.hyps(1) r(2) have "j = j''" by auto
    moreover from Cons.IH [OF r(3)] have "js = rest" .
    ultimately show ?case using r(1) by simp
  qed
  with j' show ?case by simp
qed (auto elim: repr.cases)

lemma structural_lift: "structural (lift_validator isValid) isValid"
  unfolding structural_def lift_validator_def
  by (auto dest: repr_functional)

text \<open>
  Claim C9. With a structural validator, the value \<open>getMatchingOption\<close> returns is
  determined by the values that form data, options and definitions represent. Two calls
  whose arguments represent the same values return the same, in whatever stores and at
  whatever references; a second call in the store the first has left returns what the
  first returned; the call only allocates; and the value returned is that of the method
  of the value model, on whatever instance.
\<close>

theorem getMatchingOption_at_deterministic:
  assumes "structural isValid_at isValid"
    and "repr h formData jfd" and "repr h (VRef options) (JArr jopts)"
    and "repr h definitions jdefs"
    and "repr h' formData' jfd" and "repr h' (VRef options') (JArr jopts)"
    and "repr h' definitions' jdefs"
  shows "snd (getMatchingOption_at isValid_at h formData options definitions)
           = snd (getMatchingOption_at isValid_at h' formData' options' definitions')
       \<and> snd (getMatchingOption_at isValid_at
                (fst (getMatchingOption_at isValid_at h formData options definitions))
                formData options definitions)
           = snd (getMatchingOption_at isValid_at h formData options definitions)
       \<and> (\<exists>allocated. fst (getMatchingOption_at isValid_at h formData options definitions)
                          = h @ allocated)
       \<and> snd (getMatchingOption_at isValid_at h formData options definitions)
           = getMatchingOption isValid this jfd jopts jdefs"
proof -
  let ?h1 = "fst (getMatchingOption_at isValid_at h formData options definitions)"
  have first: "snd (getMatchingOption_at isValid_at h formData options definitions)
           = getMatchingOption isValid this jfd jopts jdefs"
    using assms(1-4) by (rule getMatchingOption_refines)
  have other: "snd (getMatchingOption_at isValid_at h' formData' options' definitions')
           = getMatchingOption isValid this jfd jopts jdefs"
    using assms(1,5-7) by (rule getMatchingOption_refines)
  have frame: "prefix h ?h1"
    using prefix_matchFrom_at [of h h isValid_at formData options definitions 0 ?h1]
    by (simp add: getMatchingOption_at_def prod_eq_iff)
  then have allocated: "\<exists>allocated. ?h1 = h @ allocated" by (simp add: prefix_def)
  have "snd (getMatchingOption_at isValid_at ?h1 formData options definitions)
           = getMatchingOption isValid this jfd jopts jdefs"
    using assms(1) repr_prefix [OF assms(2) frame] repr_prefix [OF assms(3) frame]
      repr_prefix [OF assms(4) frame]
    by (rule getMatchingOption_refines)
  with first other allocated show ?thesis by simp
qed

lemma scenarioStore_repr:
  "repr scenarioStore (VRef 8) (JObj [(''b'', JNum 3)])
   \<and> repr scenarioStore (VRef 6) (JArr [branchA, branchB])
   \<and> repr scenarioStore (VRef 7) (JObj [])"
proof -
  have c: "cell_at scenarioStore 0 = Some (Object [(''type'', VStr ''string'')])"
    "cell_at scenarioStore 1 = Some (Object [(''a'', VRef 0)])"
    "cell_at scenarioStore 2 = Some (Object [(''type'', VStr ''object''), (''properties'', VRef 1)])"
    "cell_at scenarioStore 3 = Some (Object [(''type'', VStr ''number'')])"
    "cell_at scenarioStore 4 = Some (Object [(''b'', VRef 3)])"
    "cell_at scenarioStore 5 = Some (Object [(''type'', VStr ''object''), (''properties'', VRef 4)])"
    "cell_at scenarioStore 6 = Some (Array [VRef 2, VRef 5])"
    "cell_at scenarioStore 7 = Some (Object [])"
    "cell_at scenarioStore 8 = Some (Object [(''b'', VNum 3)])"
    by (simp_all add: scenarioStore_def cell_at_def)
  have r0: "repr scenarioStore (VRef 0) (JObj [(''type'', JStr ''string'')])"
    by (rule repr.obj [OF c(1)]) (simp add: repr.str)
  have r1: "repr scenarioStore (VRef 1) (JObj [(''a'', JObj [(''type'', JStr ''string'')])])"
    by (rule repr.obj [OF c(2)]) (simp add: r0)
  have r2: "repr scenarioStore (VRef 2) branchA"
    unfolding branchA_def by (rule repr.obj [OF c(3)]) (simp add: r1 [unfolded One_nat_def] repr.str)
  have r3: "repr scenarioStore (VRef 3) (JObj [(''type'', JStr ''number'')])"
    by (rule repr.obj [OF c(4)]) (simp add: repr.str)
  have r4: "repr scenarioStore (VRef 4) (JObj [(''b'', JObj [(''type'', JStr ''number'')])])"
    by (rule repr.obj [OF c(5)]) (simp add: r3)
  have r5: "repr scenarioStore (VRef 5) branchB"
    unfolding branchB_def by (rule repr.obj [OF c(6)]) (simp add: r4 repr.str)
  have r6: "repr scenarioStore (VRef 6) (JArr [branchA, branchB])"
    by (rule repr.arr [OF c(7)]) (simp add: r2 r5)
  have r7: "repr scenarioStore (VRef 7) (JObj [])"
    by (rule repr.obj [OF c(8)]) simp
  have r8: "repr scenarioStore (VRef 8) (JObj [(''b'', JNum 3)])"
    by (rule repr.obj [OF c(9)]) (simp add: repr.num)
  from r6 r7 r8 show ?thesis by simp
qed

lemma otherStore_repr:
  "repr otherStore (VRef 1) (JObj [(''b'', JNum 3)])
   \<and> repr otherStore (VRef 3) (JArr [branchA, branchB])
   \<and> repr otherStore (VRef 2) (JObj [])"
proof -
  have c: "cell_at otherStore 1 = Some (Object [(''b'', VNum 3)])"
    "cell_at otherStore 2 = Some (Object [])"
    "cell_at otherStore 3 = Some (Array [VRef 6, VRef 9])"
    "cell_at otherStore 4 = Some (Object [(''type'', VStr ''string'')])"
    "cell_at otherStore 5 = Some (Object [(''a'', VRef 4)])"
    "cell_at otherStore 6 = Some (Object [(''type'', VStr ''object''), (''properties'', VRef 5)])"
    "cell_at otherStore 7 = Some (Object [(''type'', VStr ''number'')])"
    "cell_at otherStore 8 = Some (Object [(''b'', VRef 7)])"
    "cell_at otherStore 9 = Some (Object [(''type'', VStr ''object''), (''properties'', VRef 8)])"
    by (simp_all add: otherStore_def cell_at_def)
  have r4: "repr otherStore (VRef 4) (JObj [(''type'', JStr ''string'')])"
    by (rule repr.obj [OF c(4)]) (simp add: repr.str)
  have r5: "repr otherStore (VRef 5) (JObj [(''a'', JObj [(''type'', JStr ''string'')])])"
    by (rule repr.obj [OF c(5)]) (simp add: r4)
  have r6: "repr otherStore (VRef 6) branchA"
    unfolding branchA_def by (rule repr.obj [OF c(6)]) (simp add: r5 repr.str)
  have r7: "repr otherStore (VRef 7) (JObj [(''type'', JStr ''number'')])"
    by (rule repr.obj [OF c(7)]) (simp add: repr.str)
  have r8: "repr otherStore (VRef 8) (JObj [(''b'', JObj [(''type'', JStr ''number'')])])"
    by (rule repr.obj [OF c(8)]) (simp add: r7)
  have r9: "repr otherStore (VRef 9) branchB"
    unfolding branchB_def by (rule repr.obj [OF c(9)]) (simp add: r8 repr.str)
  have r3: "repr otherStore (VRef 3) (JArr [branchA, branchB])"
    by (rule repr.arr [OF c(3)]) (simp add: r6 r9)
  have r2: "repr otherStore (VRef 2) (JObj [])"
    by (rule repr.obj [OF c(2)]) simp
  have r1: "repr otherStore (VRef 1) (JObj [(''b'', JNum 3)])"
    by (rule repr.obj [OF c(1)]) (simp add: repr.num)
  from r1 r2 r3 show ?thesis by simp
qed

theorem getMatchingOption_at_deterministic_witness:
  "structural (lift_validator validates) validates
   \<and> repr scenarioStore (VRef 8) (JObj [(''b'', JNum 3)])
   \<and> repr scenarioStore (VRef 6) (JArr [branchA, branchB])
   \<and> repr scenarioStore (VRef 7) (JObj [])
   \<and> repr otherStore (VRef 1) (JObj [(''b'', JNum 3)])
   \<and> repr otherStore (VRef 3) (JArr [branchA, branchB])
   \<and> repr otherStore (VRef 2) (JObj [])
   \<and> snd (getMatchingOption_at (lift_validator validates) scenarioStore (VRef 8) 6 (VRef 7))
       = Inr 1
   \<and> snd (getMatchingOption_at (lift_validator validates) otherStore (VRef 1) 3 (VRef 2))
       = Inr 1
   \<and> snd (getMatchingOption_at (lift_validator validates)
            (fst (getMatchingOption_at (lift_validator validates) scenarioStore
                    (VRef 8) 6 (VRef 7)))
            (VRef 8) 6 (VRef 7))
       = Inr 1"
proof -
  note s = scenarioStore_repr and t = otherStore_repr
  have pure: "getMatchingOption validates (scenarioComponent JNull 0) (JObj [(''b'', JNum 3)])
     [branchA, branchB] (JObj []) = Inr 1"
    by (simp add: scenario_defs)
  from getMatchingOption_at_deterministic
    [OF structural_lift [of validates] s [THEN conjunct1] s [THEN conjunct2, THEN conjunct1]
        s [THEN conjunct2, THEN conjunct2] t [THEN conjunct1]
        t [THEN conjunct2, THEN conjunct1] t [THEN conjunct2, THEN conjunct2],
     where this = "scenarioComponent JNull 0"]
    pure s t structural_lift [of validates]
  show ?thesis by auto
qed

end
